theory Spec2Isabelle
  imports Complex_Main "HOL-Library.Sublist"
begin

section \<open>Strings and characters\<close>

text \<open>
  Python strings are modelled as HOL strings: lists of 8-bit characters, which is the
  Latin-1 range of Python's \<^verbatim>\<open>str\<close>. The character classes below are the ones the
  program and the standard URL parser use.
\<close>

definition ascii_lowercase :: string where
  "ascii_lowercase = ''abcdefghijklmnopqrstuvwxyz''"

definition ascii_uppercase :: string where
  "ascii_uppercase = ''ABCDEFGHIJKLMNOPQRSTUVWXYZ''"

definition scheme_chars :: string where
  \<comment> \<open>\<^verbatim>\<open>scheme_chars\<close> of urllib.parse: the characters valid in scheme names.\<close>
  "scheme_chars = ascii_lowercase @ ascii_uppercase @ ''0123456789'' @ ''+-.''"

definition isascii :: "char \<Rightarrow> bool" where
  "isascii c = ((of_char c :: nat) < 128)"

definition isalpha_ascii :: "char \<Rightarrow> bool" where
  \<comment> \<open>\<^verbatim>\<open>c.isascii() and c.isalpha()\<close>\<close>
  "isalpha_ascii c = (c \<in> set (ascii_lowercase @ ascii_uppercase))"

definition lower_char :: "char \<Rightarrow> char" where
  \<comment> \<open>\<^verbatim>\<open>str.lower\<close> on one character of the Latin-1 range: A-Z, and the accented
      capitals 0xC0-0xDE except the multiplication sign 0xD7, move up by 32.\<close>
  "lower_char c =
     (let n = (of_char c :: nat)
      in if (65 \<le> n \<and> n \<le> 90) \<or> (192 \<le> n \<and> n \<le> 222 \<and> n \<noteq> 215)
         then char_of (n + 32) else c)"

definition lower :: "string \<Rightarrow> string" where
  "lower s = map lower_char s"

definition isspace :: "char \<Rightarrow> bool" where
  \<comment> \<open>\<^verbatim>\<open>str.isspace\<close> on the Latin-1 range: what \<^verbatim>\<open>str.strip()\<close> removes.\<close>
  "isspace c =
     (let n = (of_char c :: nat)
      in (9 \<le> n \<and> n \<le> 13) \<or> (28 \<le> n \<and> n \<le> 32) \<or> n = 133 \<or> n = 160)"

definition strip :: "string \<Rightarrow> string" where
  "strip s = rev (dropWhile isspace (rev (dropWhile isspace s)))"

definition c0_control_or_space :: "char \<Rightarrow> bool" where
  \<comment> \<open>\<^verbatim>\<open>_WHATWG_C0_CONTROL_OR_SPACE\<close>: the characters 0x00 to 0x20.\<close>
  "c0_control_or_space c = ((of_char c :: nat) \<le> 32)"

definition unsafe_url_bytes :: string where
  \<comment> \<open>\<^verbatim>\<open>_UNSAFE_URL_BYTES_TO_REMOVE = ['\t', '\r', '\n']\<close>\<close>
  "unsafe_url_bytes = [CHR 0x09, CHR 0x0D, CHR 0x0A]"

definition before :: "char \<Rightarrow> string \<Rightarrow> string" where
  \<comment> \<open>\<^verbatim>\<open>s.partition(c)[0]\<close>: the part of \<open>s\<close> before the first \<open>c\<close> (all of \<open>s\<close> without one).\<close>
  "before c s = takeWhile (\<lambda>x. x \<noteq> c) s"

definition after :: "char \<Rightarrow> string \<Rightarrow> string" where
  \<comment> \<open>\<^verbatim>\<open>s.partition(c)[2]\<close>: the part of \<open>s\<close> after the first \<open>c\<close> (empty without one).\<close>
  "after c s = drop 1 (dropWhile (\<lambda>x. x \<noteq> c) s)"

fun contains :: "string \<Rightarrow> string \<Rightarrow> bool" where
  \<comment> \<open>\<^verbatim>\<open>sub in s\<close> on strings: \<open>sub\<close> occurs in \<open>s\<close> as a contiguous substring.\<close>
  "contains sub [] = (sub = [])"
| "contains sub (c # s) = (prefix sub (c # s) \<or> contains sub s)"

definition replace_char :: "char \<Rightarrow> char \<Rightarrow> string \<Rightarrow> string" where
  \<comment> \<open>\<^verbatim>\<open>s.replace(a, b)\<close> for single characters.\<close>
  "replace_char a b s = map (\<lambda>c. if c = a then b else c) s"

section \<open>The standard URL parser (urllib.parse of CPython 3.11)\<close>

text \<open>
  \<^verbatim>\<open>normalize_url\<close>, \<^verbatim>\<open>get_domain\<close> and \<^verbatim>\<open>save_html\<close> are thin wrappers around
  \<^verbatim>\<open>urlparse\<close> and \<^verbatim>\<open>urldefrag\<close>, so what they compute is decided by the
  standard library. Its string algorithm is modelled here function by function. Two
  checks of the library depend on tables and grammars outside it (the ipaddress module
  and Unicode NFKC normalisation); together with \<^verbatim>\<open>urljoin\<close> they are parameters.
\<close>

datatype error =
    ValueError
  | IndexError
  | OverflowError
  | OSError
  | Uncaught string

record urllib =
  check_bracketed_host :: "string \<Rightarrow> bool"
    \<comment> \<open>\<^verbatim>\<open>_check_bracketed_host\<close> returns normally on this bracketed host\<close>
  nfkc_ok :: "string \<Rightarrow> bool"
    \<comment> \<open>the NFKC test of \<^verbatim>\<open>_checknetloc\<close> passes on this non-ASCII netloc\<close>
  urljoin :: "string \<Rightarrow> string \<Rightarrow> error + string"

record parse_result =
  pr_scheme :: string
  pr_netloc :: string
  pr_path :: string
  pr_params :: string
  pr_query :: string
  pr_fragment :: string

definition uses_netloc :: "string list" where
  "uses_netloc = ['''', ''ftp'', ''http'', ''gopher'', ''nntp'', ''telnet'',
     ''imap'', ''wais'', ''file'', ''mms'', ''https'', ''shttp'',
     ''snews'', ''prospero'', ''rtsp'', ''rtsps'', ''rtspu'', ''rsync'',
     ''svn'', ''svn+ssh'', ''sftp'', ''nfs'', ''git'', ''git+ssh'',
     ''ws'', ''wss'']"

definition uses_params :: "string list" where
  "uses_params = ['''', ''ftp'', ''hdl'', ''prospero'', ''http'', ''imap'',
     ''https'', ''shttp'', ''rtsp'', ''rtsps'', ''rtspu'', ''sip'',
     ''sips'', ''mms'', ''sftp'', ''tel'']"

definition is_delim :: "char \<Rightarrow> bool" where
  \<comment> \<open>the delimiters \<^verbatim>\<open>'/?#'\<close> that end a netloc\<close>
  "is_delim c = (c = CHR ''/'' \<or> c = CHR ''?'' \<or> c = CHR ''#'')"

definition splitnetloc :: "string \<Rightarrow> string \<times> string" where
  \<comment> \<open>\<^verbatim>\<open>_splitnetloc(url, 2)\<close>: the netloc runs from index 2 to the earliest delimiter.\<close>
  "splitnetloc url =
     (takeWhile (\<lambda>c. \<not> is_delim c) (drop 2 url), dropWhile (\<lambda>c. \<not> is_delim c) (drop 2 url))"

definition checknetloc :: "urllib \<Rightarrow> string \<Rightarrow> bool" where
  \<comment> \<open>\<^verbatim>\<open>_checknetloc\<close> returns normally (it raises ValueError otherwise).\<close>
  "checknetloc L netloc = (netloc = [] \<or> list_all isascii netloc \<or> nfkc_ok L netloc)"

definition brackets_ok :: "urllib \<Rightarrow> string \<Rightarrow> bool" where
  \<comment> \<open>the two bracket tests of \<^verbatim>\<open>urlsplit\<close> on a netloc pass\<close>
  "brackets_ok L netloc =
     (let lb = (CHR ''['' \<in> set netloc); rb = (CHR '']'' \<in> set netloc)
      in if (lb \<and> \<not> rb) \<or> (rb \<and> \<not> lb) then False
         else if lb \<and> rb then check_bracketed_host L (before CHR '']'' (after CHR ''['' netloc))
         else True)"

definition has_scheme :: "string \<Rightarrow> bool" where
  \<comment> \<open>\<^verbatim>\<open>i = url.find(':')\<close>, \<^verbatim>\<open>i > 0\<close>, the first character an ASCII letter and every
      character of \<^verbatim>\<open>url[:i]\<close> a scheme character (the for/else of \<^verbatim>\<open>urlsplit\<close>)\<close>
  "has_scheme url =
     (CHR '':'' \<in> set url \<and> before CHR '':'' url \<noteq> [] \<and> isalpha_ascii (hd url) \<and>
      list_all (\<lambda>c. c \<in> set scheme_chars) (before CHR '':'' url))"

definition strip_url :: "string \<Rightarrow> string" where
  \<comment> \<open>\<^verbatim>\<open>url = url.lstrip(_WHATWG_C0_CONTROL_OR_SPACE)\<close>, then
      \<^verbatim>\<open>for b in _UNSAFE_URL_BYTES_TO_REMOVE: url = url.replace(b, "")\<close>\<close>
  "strip_url url =
     fold (\<lambda>b u. filter (\<lambda>c. c \<noteq> b) u) unsafe_url_bytes (dropWhile c0_control_or_space url)"

definition split_scheme :: "string \<Rightarrow> string \<times> string" where
  \<comment> \<open>\<^verbatim>\<open>scheme, url = url[:i].lower(), url[i+1:]\<close> when the URL starts with a scheme;
      the scheme stays empty otherwise\<close>
  "split_scheme url =
     (if has_scheme url then (lower (before CHR '':'' url), after CHR '':'' url) else ([], url))"

definition urlsplit :: "urllib \<Rightarrow> string \<Rightarrow> error + (string \<times> string \<times> string \<times> string \<times> string)" where
  \<comment> \<open>\<^verbatim>\<open>url.split('#', 1)\<close> and \<^verbatim>\<open>url.split('?', 1)\<close> are written with \<open>before\<close> and
      \<open>after\<close>: without the separator they leave the URL as it is and give the empty
      string, which is what the untaken \<^verbatim>\<open>if\<close> leaves.\<close>
  "urlsplit L url0 =
     (let url = strip_url url0;
          scheme = fst (split_scheme url);
          url = snd (split_scheme url);
          slashes = (take 2 url = ''//'');
          netloc = (if slashes then fst (splitnetloc url) else []);
          url = (if slashes then snd (splitnetloc url) else url)
      in if slashes \<and> \<not> brackets_ok L netloc then Inl ValueError
         else
           let fragment = after CHR ''#'' url;
               url = before CHR ''#'' url;
               query = after CHR ''?'' url;
               url = before CHR ''?'' url
           in if \<not> checknetloc L netloc then Inl ValueError
              else Inr (scheme, netloc, url, query, fragment))"

definition splitparams :: "string \<Rightarrow> string \<times> string" where
  \<comment> \<open>\<^verbatim>\<open>_splitparams\<close>: split at the first \<^verbatim>\<open>;\<close> of the last path segment.\<close>
  "splitparams url =
     (if CHR ''/'' \<in> set url then
        (let seg = rev (takeWhile (\<lambda>c. c \<noteq> CHR ''/'') (rev url));
             front = rev (dropWhile (\<lambda>c. c \<noteq> CHR ''/'') (rev url))
         in if CHR '';'' \<in> set seg
            then (front @ before CHR '';'' seg, after CHR '';'' seg)
            else (url, []))
      else (before CHR '';'' url, after CHR '';'' url))"

definition urlparse :: "urllib \<Rightarrow> string \<Rightarrow> error + parse_result" where
  "urlparse L url =
     (case urlsplit L url of
        Inl e \<Rightarrow> Inl e
      | Inr (scheme, netloc, url, query, fragment) \<Rightarrow>
          (let (url, params) =
                 (if scheme \<in> set uses_params \<and> CHR '';'' \<in> set url then splitparams url
                  else (url, []))
           in Inr \<lparr>pr_scheme = scheme, pr_netloc = netloc, pr_path = url,
                   pr_params = params, pr_query = query, pr_fragment = fragment\<rparr>))"

definition urlunsplit :: "string \<times> string \<times> string \<times> string \<times> string \<Rightarrow> string" where
  "urlunsplit components =
     (case components of (scheme, netloc, url, query, fragment) \<Rightarrow>
        (let url = (if netloc \<noteq> [] \<or> (scheme \<noteq> [] \<and> scheme \<in> set uses_netloc) \<or> take 2 url = ''//''
                    then ''//'' @ netloc @ (if url \<noteq> [] \<and> take 1 url \<noteq> ''/'' then ''/'' @ url else url)
                    else url);
             url = (if scheme \<noteq> [] then scheme @ '':'' @ url else url);
             url = (if query \<noteq> [] then url @ ''?'' @ query else url);
             url = (if fragment \<noteq> [] then url @ ''#'' @ fragment else url)
         in url))"

definition urlunparse :: "string \<times> string \<times> string \<times> string \<times> string \<times> string \<Rightarrow> string" where
  "urlunparse components =
     (case components of (scheme, netloc, url, params, query, fragment) \<Rightarrow>
        urlunsplit (scheme, netloc, (if params \<noteq> [] then url @ '';'' @ params else url),
                    query, fragment))"

definition urldefrag :: "urllib \<Rightarrow> string \<Rightarrow> error + (string \<times> string)" where
  "urldefrag L url =
     (if CHR ''#'' \<in> set url then
        (case urlparse L url of
           Inl e \<Rightarrow> Inl e
         | Inr p \<Rightarrow>
             Inr (urlunparse (pr_scheme p, pr_netloc p, pr_path p, pr_params p, pr_query p, []),
                  pr_fragment p))
      else Inr (url, []))"

section \<open>Helper functions of the crawler\<close>

definition normalize_url :: "urllib \<Rightarrow> string \<Rightarrow> error + string" where
  \<comment> \<open>Normalize URL by removing fragments and enforcing scheme.\<close>
  "normalize_url L url =
     (case urldefrag L url of
        Inl e \<Rightarrow> Inl e
      | Inr (url, _) \<Rightarrow>
          (case urlparse L url of
             Inl e \<Rightarrow> Inl e
           | Inr parsed \<Rightarrow>
               (let scheme = (if pr_scheme parsed \<noteq> [] then pr_scheme parsed else ''http'');
                    netloc = pr_netloc parsed;
                    path = (if pr_path parsed \<noteq> [] then pr_path parsed else ''/'')
                in Inr (scheme @ ''://'' @ netloc @ path))))"

definition get_domain :: "urllib \<Rightarrow> string \<Rightarrow> error + string" where
  \<comment> \<open>Extract domain from URL.\<close>
  "get_domain L url =
     (case urlparse L url of Inl e \<Rightarrow> Inl e | Inr parsed \<Rightarrow> Inr (lower (pr_netloc parsed)))"

definition os_path_join :: "string \<Rightarrow> string \<Rightarrow> string" where
  \<comment> \<open>\<^verbatim>\<open>os.path.join(a, b)\<close> on a POSIX system\<close>
  "os_path_join a b =
     (if take 1 b = ''/'' then b
      else if a = [] \<or> last a = CHR ''/'' then a @ b
      else a @ ''/'' @ b)"

definition save_html :: "urllib \<Rightarrow> string \<Rightarrow> string \<Rightarrow> error + string" where
  \<comment> \<open>The path under which the content is saved. The write itself is an event of the
      crawl (see \<open>Save_html\<close> below); file-system writes are taken to succeed.\<close>
  "save_html L output_dir url =
     (case urlparse L url of
        Inl e \<Rightarrow> Inl e
      | Inr parsed \<Rightarrow>
          (let safe_name = pr_netloc parsed @ replace_char CHR ''/'' CHR ''_'' (pr_path parsed);
               safe_name = (if safe_name = [] \<or> last safe_name = CHR ''_''
                            then safe_name @ ''index'' else safe_name);
               fname = safe_name @ ''.html''
           in Inr (os_path_join output_dir (take 200 fname))))"

type_synonym robot_parser = "string \<Rightarrow> string \<Rightarrow> bool option"
  \<comment> \<open>\<^verbatim>\<open>rp.can_fetch(user_agent, url)\<close>; \<open>None\<close> when the call raises\<close>

definition is_allowed :: "robot_parser option \<Rightarrow> string \<Rightarrow> string \<Rightarrow> bool" where
  \<comment> \<open>Check if crawling this URL is allowed by robots.txt.\<close>
  "is_allowed rp user_agent url =
     (case rp of
        None \<Rightarrow> True
      | Some can_fetch \<Rightarrow> (case can_fetch user_agent url of None \<Rightarrow> True | Some b \<Rightarrow> b))"

definition TOR_PROXY :: string where
  "TOR_PROXY = ''socks5h://127.0.0.1:9050''"

record session =
  headers :: "(string \<times> string) list"
  proxies :: "(string \<times> string) list"

definition setup_session :: "bool \<Rightarrow> string \<Rightarrow> session" where
  \<comment> \<open>Create a requests.Session with (or without) Tor.\<close>
  "setup_session use_tor user_agent =
     \<lparr>headers = [(''User-Agent'', user_agent)],
      proxies = (if use_tor then [(''http'', TOR_PROXY), (''https'', TOR_PROXY)] else [])\<rparr>"

section \<open>The world outside the crawler\<close>

text \<open>
  The network, the robots.txt reader, the HTML parser, the iteration order of a Python
  set and the sleep call of the operating system are outside the program. They are the
  fields of an environment: every theorem below holds for every environment, and the
  witnesses run the crawler on a small one. Signals delivered to the process are not
  modelled.
\<close>

datatype response =
    Response int "string option" string string
      \<comment> \<open>status code, Content-Type header (if any), content, text\<close>
  | Raises_RequestException string
      \<comment> \<open>\<^verbatim>\<open>session.get\<close> raises a subclass of RequestException with this class name\<close>
  | Raises_other string
      \<comment> \<open>\<^verbatim>\<open>session.get\<close> raises an exception that is not a RequestException\<close>

record env =
  lib :: urllib
  http_get :: "session \<Rightarrow> string \<Rightarrow> response"
    \<comment> \<open>\<^verbatim>\<open>session.get(url, timeout=30)\<close>\<close>
  read_robots :: "string \<Rightarrow> robot_parser option"
    \<comment> \<open>\<^verbatim>\<open>rp.set_url(robots_url); rp.read()\<close>; \<open>None\<close> when it raises\<close>
  find_hrefs :: "string \<Rightarrow> string list"
    \<comment> \<open>the \<^verbatim>\<open>href\<close> values of \<^verbatim>\<open>soup.find_all("a", href=True)\<close>, in document order\<close>
  set_order :: "string list \<Rightarrow> string list"
    \<comment> \<open>the order in which Python iterates over the set built by adding these strings\<close>
  pysleep :: "real \<Rightarrow> bool"
    \<comment> \<open>the operating system carries out a sleep of this many seconds (the call
        \<^verbatim>\<open>clock_nanosleep\<close> inside \<^verbatim>\<open>time.sleep\<close>); when it refuses the deadline,
        \<^verbatim>\<open>time.sleep\<close> raises OSError\<close>

definition load_robots_txt :: "env \<Rightarrow> string \<Rightarrow> error + robot_parser option" where
  \<comment> \<open>Load robots.txt for the given URL's domain. \<^verbatim>\<open>urlparse\<close> is called outside
      the \<^verbatim>\<open>try\<close>, so its ValueError is not caught.\<close>
  "load_robots_txt E url =
     (case urlparse (lib E) url of
        Inl e \<Rightarrow> Inl e
      | Inr parsed \<Rightarrow>
          Inr (read_robots E (pr_scheme parsed @ ''://'' @ pr_netloc parsed @ ''/robots.txt'')))"

fun collect_links :: "urllib \<Rightarrow> string \<Rightarrow> string list \<Rightarrow> error + string list" where
  \<comment> \<open>the loop of \<^verbatim>\<open>extract_links\<close> over the anchors: the links added, in order\<close>
  "collect_links L base_url [] = Inr []"
| "collect_links L base_url (a # as) =
     (case urljoin L base_url (strip a) of
        Inl e \<Rightarrow> Inl e
      | Inr full_url \<Rightarrow>
          (case urlparse L full_url of
             Inl e \<Rightarrow> Inl e
           | Inr parsed \<Rightarrow>
               if pr_scheme parsed = ''http'' \<or> pr_scheme parsed = ''https'' then
                 (case normalize_url L full_url of
                    Inl e \<Rightarrow> Inl e
                  | Inr link \<Rightarrow>
                      (case collect_links L base_url as of
                         Inl e \<Rightarrow> Inl e
                       | Inr links \<Rightarrow> Inr (link # links)))
               else collect_links L base_url as))"

definition extract_links :: "env \<Rightarrow> string \<Rightarrow> string \<Rightarrow> error + string list" where
  \<comment> \<open>Extract all valid <a href> links from HTML. The result is Python's set, given
      in the order in which the caller's \<^verbatim>\<open>for\<close> loop visits it.\<close>
  "extract_links E base_url html =
     (case collect_links (lib E) base_url (find_hrefs E html) of
        Inl e \<Rightarrow> Inl e
      | Inr links \<Rightarrow> Inr (set_order E links))"

section \<open>The crawl loop\<close>

datatype cell = Num int | Str string
  \<comment> \<open>the status column of the log holds an integer or a string\<close>

record audit_row =
  row_url :: string
  row_status :: cell
  row_content_type :: string
  row_saved_file :: string

text \<open>
  The effects of a run, in the order in which they happen. \<open>Log_row\<close> is a row appended
  to crawl\_log.csv, \<open>Save_html\<close> a file written, \<open>Http_get\<close> a request sent,
  \<open>Sleep\<close> a call of \<^verbatim>\<open>time.sleep\<close>; \<open>Is_allowed\<close>, \<open>Extract_links\<close> and
  \<open>Visited_add\<close> mark the moment at which the program consults robots.txt, parses a
  page for links and adds a URL to the visited set. The progress bar and the messages
  of the logger only display; they are left out, and so is the header row of the log.
\<close>

datatype pyfloat =
    Finite real
  | Pos_inf
  | Neg_inf
  | NaN
  \<comment> \<open>a Python \<^verbatim>\<open>float\<close>, as \<^verbatim>\<open>type=float\<close> of the command line produces it (it
      accepts \<^verbatim>\<open>nan\<close> and \<^verbatim>\<open>inf\<close>); an \<^verbatim>\<open>int\<close>, such as the default delay 2, is
      \<open>Finite\<close> of its value\<close>

definition time_sleep :: "env \<Rightarrow> pyfloat \<Rightarrow> error option" where
  \<comment> \<open>\<^verbatim>\<open>time.sleep(secs)\<close>: \<open>None\<close> when it returns, \<open>Some e\<close> when it raises \<open>e\<close>. CPython
      converts the seconds to a signed 64-bit count of nanoseconds: it raises ValueError
      on NaN, OverflowError when the product with 10^9, rounded to a double, is below
      -2^63 or not below 2^63 (the two bounds below are the reals at which the rounding
      crosses these limits), and ValueError on a negative count. Then it calls the
      operating system.\<close>
  "time_sleep E secs =
     (case secs of
        NaN \<Rightarrow> Some ValueError
      | Pos_inf \<Rightarrow> Some OverflowError
      | Neg_inf \<Rightarrow> Some OverflowError
      | Finite r \<Rightarrow>
          if r * 10 ^ 9 < - (2 ^ 63) - 1024 \<or> 2 ^ 63 - 512 \<le> r * 10 ^ 9 then Some OverflowError
          else if r < 0 then Some ValueError
          else if pysleep E r then None
          else Some OSError)"

datatype event =
    Is_allowed string
  | Http_get string
  | Save_html string string
  | Extract_links string
  | Log_row audit_row
  | Visited_add string
  | Sleep pyfloat

record config =
  depth :: int
  delay :: pyfloat
  use_tor :: bool
  output_dir :: string
  user_agent :: string
  respect_robots :: bool
  max_pages :: int

record crawl_state =
  visited :: "string set"
  queue :: "(string \<times> int) list"
  processed :: int
  trace :: "event list"

type_synonym step_result = "(error \<times> crawl_state) + crawl_state"
  \<comment> \<open>\<open>Inl (e, s)\<close>: an uncaught exception \<open>e\<close> ends the run in state \<open>s\<close>\<close>

definition emit :: "event \<Rightarrow> crawl_state \<Rightarrow> crawl_state" where
  "emit e s = s\<lparr>trace := trace s @ [e]\<rparr>"

definition log_to_csv :: "string \<Rightarrow> cell \<Rightarrow> string \<Rightarrow> string \<Rightarrow> crawl_state \<Rightarrow> crawl_state" where
  \<comment> \<open>Append a record to the crawl log CSV.\<close>
  "log_to_csv url status content_type saved_file s =
     emit (Log_row \<lparr>row_url = url, row_status = status, row_content_type = content_type,
                    row_saved_file = saved_file\<rparr>) s"

fun admit_links :: "urllib \<Rightarrow> string \<Rightarrow> int \<Rightarrow> string list \<Rightarrow> crawl_state \<Rightarrow> step_result" where
  \<comment> \<open>\<^verbatim>\<open>for link in links: if link not in visited and
      get_domain(link).endswith(get_domain(start_url)): queue.append((link, level + 1))\<close>\<close>
  "admit_links L start_url level [] s = Inr s"
| "admit_links L start_url level (link # links) s =
     (if link \<notin> visited s then
        (case get_domain L link of
           Inl e \<Rightarrow> Inl (e, s)
         | Inr d \<Rightarrow>
             (case get_domain L start_url of
                Inl e \<Rightarrow> Inl (e, s)
              | Inr d0 \<Rightarrow>
                  if suffix d0 d
                  then admit_links L start_url level links (s\<lparr>queue := queue s @ [(link, level + 1)]\<rparr>)
                  else admit_links L start_url level links s))
      else admit_links L start_url level links s)"

definition follow_links :: "env \<Rightarrow> string \<Rightarrow> string \<Rightarrow> int \<Rightarrow> string \<Rightarrow> crawl_state \<Rightarrow> step_result" where
  \<comment> \<open>the body of \<^verbatim>\<open>if level < depth:\<close>\<close>
  "follow_links E start_url url level html s =
     (case extract_links E url html of
        Inl e \<Rightarrow> Inl (e, emit (Extract_links url) s)
      | Inr links \<Rightarrow> admit_links (lib E) start_url level links (emit (Extract_links url) s))"

definition handle_response ::
  "env \<Rightarrow> config \<Rightarrow> string \<Rightarrow> string \<Rightarrow> int \<Rightarrow> int \<Rightarrow> string \<Rightarrow> string \<Rightarrow> string \<Rightarrow> crawl_state \<Rightarrow> step_result" where
  \<comment> \<open>the \<^verbatim>\<open>try\<close> block after \<^verbatim>\<open>session.get\<close> has returned\<close>
  "handle_response E C start_url url level status ctype content html s =
     (if status = 200 \<and> contains ''text/html'' (lower ctype) then
        (case save_html (lib E) (output_dir C) url of
           Inl e \<Rightarrow> Inl (e, s)
         | Inr saved_file \<Rightarrow>
             (case (if level < depth C
                    then follow_links E start_url url level html (emit (Save_html saved_file content) s)
                    else Inr (emit (Save_html saved_file content) s)) of
                Inl es \<Rightarrow> Inl es
              | Inr s' \<Rightarrow> Inr (log_to_csv url (Num status) ctype saved_file s')))
      else Inr (log_to_csv url (Num status) ctype [] s))"

definition finish_target :: "env \<Rightarrow> config \<Rightarrow> string \<Rightarrow> crawl_state \<Rightarrow> step_result" where
  \<comment> \<open>the four statements after the \<^verbatim>\<open>try\<close>: \<^verbatim>\<open>visited.add(url); processed += 1;
      pbar.update(1); time.sleep(delay)\<close>. An exception of \<^verbatim>\<open>time.sleep\<close> is not
      caught.\<close>
  "finish_target E C url s =
     (let s' = emit (Visited_add url) (s\<lparr>visited := insert url (visited s), processed := processed s + 1\<rparr>)
      in case time_sleep E (delay C) of
           Some e \<Rightarrow> Inl (e, s')
         | None \<Rightarrow> Inr (emit (Sleep (delay C)) s'))"

definition crawl_step ::
  "env \<Rightarrow> config \<Rightarrow> string \<Rightarrow> session \<Rightarrow> robot_parser option \<Rightarrow> crawl_state \<Rightarrow> step_result" where
  \<comment> \<open>one iteration of the \<^verbatim>\<open>while\<close> loop\<close>
  "crawl_step E C start_url sess rp s =
     (case queue s of
        [] \<Rightarrow> Inl (IndexError, s)
      | (url, level) # rest \<Rightarrow>
          (let s0 = s\<lparr>queue := rest\<rparr>
           in if url \<in> visited s0 \<or> level > depth C then Inr s0
              else if respect_robots C \<and> \<not> is_allowed rp (user_agent C) url then
                Inr (emit (Visited_add url)
                       ((log_to_csv url (Str ''robots_blocked'') [] [] (emit (Is_allowed url) s0))
                          \<lparr>visited := insert url (visited s0)\<rparr>))
              else
                (let s1 = (if respect_robots C then emit (Is_allowed url) s0 else s0);
                     s2 = emit (Http_get url) s1
                 in case http_get E sess url of
                      Response status header content html \<Rightarrow>
                        (case handle_response E C start_url url level status
                                (case header of None \<Rightarrow> [] | Some v \<Rightarrow> v) content html s2 of
                           Inl es \<Rightarrow> Inl es
                         | Inr s3 \<Rightarrow> finish_target E C url s3)
                    | Raises_RequestException kind \<Rightarrow>
                        finish_target E C url (log_to_csv url (Str (''error:'' @ kind)) [] [] s2)
                    | Raises_other kind \<Rightarrow> Inl (Uncaught kind, s2))))"

datatype run =
    Finished crawl_state
      \<comment> \<open>the loop condition became false\<close>
  | Crashed error crawl_state
      \<comment> \<open>an uncaught exception ended the run\<close>
  | Running crawl_state
      \<comment> \<open>the loop is still running after the given number of iterations\<close>

fun crawl_loop ::
  "nat \<Rightarrow> env \<Rightarrow> config \<Rightarrow> string \<Rightarrow> session \<Rightarrow> robot_parser option \<Rightarrow> crawl_state \<Rightarrow> run" where
  \<comment> \<open>\<^verbatim>\<open>while queue and processed < max_pages\<close>, observed after at most \<open>n\<close> iterations\<close>
  "crawl_loop 0 E C start_url sess rp s =
     (if queue s \<noteq> [] \<and> processed s < max_pages C then Running s else Finished s)"
| "crawl_loop (Suc n) E C start_url sess rp s =
     (if queue s \<noteq> [] \<and> processed s < max_pages C then
        (case crawl_step E C start_url sess rp s of
           Inl (e, s') \<Rightarrow> Crashed e s'
         | Inr s' \<Rightarrow> crawl_loop n E C start_url sess rp s')
      else Finished s)"

definition init_state :: "string \<Rightarrow> crawl_state" where
  "init_state start_url = \<lparr>visited = {}, queue = [(start_url, 0)], processed = 0, trace = []\<rparr>"

definition no_state :: crawl_state where
  "no_state = \<lparr>visited = {}, queue = [], processed = 0, trace = []\<rparr>"

definition crawl :: "nat \<Rightarrow> env \<Rightarrow> config \<Rightarrow> string \<Rightarrow> run" where
  \<comment> \<open>Main crawl loop (BFS), observed after at most \<open>n\<close> iterations.\<close>
  "crawl n E C start_url =
     (case normalize_url (lib E) start_url of
        Inl e \<Rightarrow> Crashed e no_state
      | Inr start_url \<Rightarrow>
          (case (if respect_robots C then load_robots_txt E start_url else Inr None) of
             Inl e \<Rightarrow> Crashed e no_state
           | Inr rp \<Rightarrow>
               crawl_loop n E C start_url (setup_session (use_tor C) (user_agent C)) rp
                 (init_state start_url)))"

definition state_of :: "run \<Rightarrow> crawl_state" where
  "state_of r = (case r of Finished s \<Rightarrow> s | Crashed e s \<Rightarrow> s | Running s \<Rightarrow> s)"

fun logged :: "event \<Rightarrow> audit_row list" where
  "logged (Log_row r) = [r]"
| "logged _ = []"

definition audit_log :: "event list \<Rightarrow> audit_row list" where
  \<comment> \<open>the rows appended to crawl\_log.csv, in order\<close>
  "audit_log tr = concat (map logged tr)"

fun requested :: "event \<Rightarrow> string list" where
  "requested (Http_get u) = [u]"
| "requested _ = []"

definition requests :: "event list \<Rightarrow> string list" where
  \<comment> \<open>the URLs of the GET requests sent, in order\<close>
  "requests tr = concat (map requested tr)"

section \<open>Notions used to state the properties\<close>

definition result_state :: "step_result \<Rightarrow> crawl_state" where
  \<comment> \<open>the state in which an iteration ends, normally or by an exception\<close>
  "result_state r = (case r of Inl es \<Rightarrow> snd es | Inr s \<Rightarrow> s)"

definition new_events :: "crawl_state \<Rightarrow> crawl_state \<Rightarrow> event list" where
  \<comment> \<open>the events of \<open>s'\<close> that happened after \<open>s\<close>\<close>
  "new_events s s' = drop (length (trace s)) (trace s')"

definition in_scope :: "urllib \<Rightarrow> string \<Rightarrow> string \<Rightarrow> bool" where
  \<comment> \<open>the domain test of the loop: \<^verbatim>\<open>get_domain(link).endswith(get_domain(start_url))\<close>
      evaluates to True\<close>
  "in_scope L start_url link =
     (case get_domain L link of
        Inl e \<Rightarrow> False
      | Inr d \<Rightarrow> (case get_domain L start_url of Inl e \<Rightarrow> False | Inr d0 \<Rightarrow> suffix d0 d))"

definition same_site_or_subdomain :: "string \<Rightarrow> string \<Rightarrow> bool" where
  \<comment> \<open>the scoping rule in the words of the specification: the host is the seed's host
      or a dot-separated subdomain of it\<close>
  "same_site_or_subdomain seed_host host = (host = seed_host \<or> suffix (''.'' @ seed_host) host)"

definition html_ok :: "int \<Rightarrow> string \<Rightarrow> bool" where
  \<comment> \<open>the test \<^verbatim>\<open>status == 200 and "text/html" in ctype.lower()\<close>\<close>
  "html_ok status ctype = (status = 200 \<and> contains ''text/html'' (lower ctype))"

definition header_value :: "string option \<Rightarrow> string" where
  \<comment> \<open>\<^verbatim>\<open>resp.headers.get("Content-Type", "")\<close>\<close>
  "header_value header = (case header of None \<Rightarrow> [] | Some v \<Rightarrow> v)"

definition robots_blocked :: "audit_row \<Rightarrow> bool" where
  "robots_blocked r = (row_status r = Str ''robots_blocked'')"

definition crawl_safe :: "urllib \<Rightarrow> config \<Rightarrow> string \<Rightarrow> crawl_state \<Rightarrow> bool" where
  \<comment> \<open>what holds of every state of a run, also of one that an exception ended\<close>
  "crawl_safe L C st s =
     (distinct (map row_url (audit_log (trace s))) \<and>
      distinct (requests (trace s)) \<and>
      processed s = int (length (filter (\<lambda>r. \<not> robots_blocked r) (audit_log (trace s)))) \<and>
      processed s \<le> max 0 (max_pages C) \<and>
      (\<forall>u \<in> set (requests (trace s)) \<union> set (map row_url (audit_log (trace s))) \<union> fst ` set (queue s).
         u = st \<or> in_scope L st u))"

definition crawl_inv :: "urllib \<Rightarrow> config \<Rightarrow> string \<Rightarrow> crawl_state \<Rightarrow> bool" where
  \<comment> \<open>the loop invariant: what holds at the top of every iteration\<close>
  "crawl_inv L C st s =
     (crawl_safe L C st s \<and>
      set (map row_url (audit_log (trace s))) \<subseteq> visited s \<and>
      set (requests (trace s)) \<subseteq> visited s)"

definition unsafe :: "char \<Rightarrow> bool" where
  \<comment> \<open>one of the bytes that \<^verbatim>\<open>urlsplit\<close> removes\<close>
  "unsafe c = (c \<in> set unsafe_url_bytes)"

definition scheme_wf :: "string \<Rightarrow> bool" where
  \<comment> \<open>what \<^verbatim>\<open>urlsplit\<close> returns as a non-empty scheme: it starts with an ASCII letter,
      consists of scheme characters and is in lower case\<close>
  "scheme_wf s =
     (s \<noteq> [] \<and> isalpha_ascii (hd s) \<and> list_all (\<lambda>c. c \<in> set scheme_chars) s \<and> lower s = s)"

definition rooted :: "urllib \<Rightarrow> string \<Rightarrow> bool" where
  \<comment> \<open>the URL parses, and it has a host (a non-empty netloc) or a path that is empty or
      starts with a slash\<close>
  "rooted L x =
     (case urldefrag L x of
        Inl e \<Rightarrow> False
      | Inr (u, f) \<Rightarrow>
          (case urlparse L u of
             Inl e \<Rightarrow> False
           | Inr pr \<Rightarrow> pr_netloc pr \<noteq> [] \<or> pr_path pr = [] \<or> take 1 (pr_path pr) = ''/''))"

section \<open>A small world to run the crawler on\<close>

definition demo_lib :: urllib where
  "demo_lib = \<lparr>check_bracketed_host = (\<lambda>h. False), nfkc_ok = (\<lambda>h. False),
               urljoin = (\<lambda>base url. Inr url)\<rparr>"

definition demo_page :: string where
  "demo_page = ''<a href=...>''"

definition demo_get :: "session \<Rightarrow> string \<Rightarrow> response" where
  "demo_get sess url =
     (if url = ''http://example.com/'' then Response 200 (Some ''Text/HTML; charset=utf-8'') demo_page demo_page
      else if url = ''http://example.com/a'' then Raises_RequestException ''Timeout''
      else if url = ''http://notexample.com/'' then Response 200 (Some ''text/html'') ''evil'' ''evil''
      else if url = ''http://example.com/img.png'' then Response 200 (Some ''image/png'') ''png'' ''png''
      else Response 404 None [] [])"

definition demo_robots :: robot_parser where
  "demo_robots ua url = Some (url \<noteq> ''http://example.com/secret'')"

definition demo_hrefs :: "string \<Rightarrow> string list" where
  "demo_hrefs html =
     (if html = demo_page
      then [''http://example.com/secret'', ''http://example.com/a'', ''http://other.com/b'',
            ''http://notexample.com/'', ''http://example.com/#top'', ''http://example.com/img.png?v=1'']
      else [])"

definition demo_env :: env where
  "demo_env = \<lparr>lib = demo_lib, http_get = demo_get, read_robots = (\<lambda>robots_url. Some demo_robots),
               find_hrefs = demo_hrefs, set_order = remdups, pysleep = (\<lambda>secs. True)\<rparr>"

definition demo_config :: config where
  "demo_config = \<lparr>depth = 1, delay = Finite 2, use_tor = True, output_dir = ''tor_output'',
                  user_agent = ''ShadowCrawler/1.0'', respect_robots = True, max_pages = 2\<rparr>"

definition demo_session :: session where
  "demo_session = setup_session (use_tor demo_config) (user_agent demo_config)"

definition demo_config_10 :: config where
  \<comment> \<open>the same run with a budget of ten pages\<close>
  "demo_config_10 = demo_config\<lparr>max_pages := 10\<rparr>"

definition demo_state :: "string \<Rightarrow> int \<Rightarrow> crawl_state" where
  \<comment> \<open>a state with one queued target and nothing done yet\<close>
  "demo_state url level = \<lparr>visited = {}, queue = [(url, level)], processed = 0, trace = []\<rparr>"

section \<open>The effect of one iteration\<close>

lemma result_state_simps [simp]:
  "result_state (Inl (e, s)) = s" "result_state (Inr s) = s"
  by (simp_all add: result_state_def)

lemma emit_simps [simp]:
  "visited (emit e s) = visited s" "queue (emit e s) = queue s"
  "processed (emit e s) = processed s" "trace (emit e s) = trace s @ [e]"
  by (simp_all add: emit_def)

lemma log_to_csv_simps [simp]:
  "visited (log_to_csv u st ct sf s) = visited s" "queue (log_to_csv u st ct sf s) = queue s"
  "processed (log_to_csv u st ct sf s) = processed s"
  "trace (log_to_csv u st ct sf s) =
     trace s @ [Log_row \<lparr>row_url = u, row_status = st, row_content_type = ct, row_saved_file = sf\<rparr>]"
  by (simp_all add: log_to_csv_def)

lemma audit_log_simps [simp]:
  "audit_log [] = []" "audit_log (e # tr) = logged e @ audit_log tr"
  "audit_log (tr @ tr') = audit_log tr @ audit_log tr'"
  by (simp_all add: audit_log_def)

lemma requests_simps [simp]:
  "requests [] = []" "requests (e # tr) = requested e @ requests tr"
  "requests (tr @ tr') = requests tr @ requests tr'"
  by (simp_all add: requests_def)

lemma admit_links_effect:
  "\<exists>new. result_state (admit_links L st lvl links s) = s\<lparr>queue := queue s @ new\<rparr> \<and>
         (\<forall>(u, l) \<in> set new. l = lvl + 1 \<and> u \<in> set links \<and> u \<notin> visited s \<and> in_scope L st u)"
proof (induction links arbitrary: s)
  case Nil
  show ?case by (rule exI [of _ "[]"]) simp
next
  case (Cons link links)
  show ?case
  proof (cases "link \<notin> visited s \<and> in_scope L st link")
    case True
    let ?s = "s\<lparr>queue := queue s @ [(link, lvl + 1)]\<rparr>"
    from Cons.IH [of ?s] obtain new where
      n: "result_state (admit_links L st lvl links ?s) = ?s\<lparr>queue := queue ?s @ new\<rparr>"
         "\<forall>(u, l) \<in> set new. l = lvl + 1 \<and> u \<in> set links \<and> u \<notin> visited ?s \<and> in_scope L st u"
      by blast
    from True have eq: "admit_links L st lvl (link # links) s = admit_links L st lvl links ?s"
      by (auto simp: in_scope_def split: sum.splits)
    show ?thesis
      unfolding eq
      apply (rule exI [of _ "(link, lvl + 1) # new"])
      using n True by auto
  next
    case False
    from Cons.IH [of s] obtain new where
      n: "result_state (admit_links L st lvl links s) = s\<lparr>queue := queue s @ new\<rparr>"
         "\<forall>(u, l) \<in> set new. l = lvl + 1 \<and> u \<in> set links \<and> u \<notin> visited s \<and> in_scope L st u"
      by blast
    from False have "admit_links L st lvl (link # links) s = admit_links L st lvl links s
        \<or> (\<exists>e. admit_links L st lvl (link # links) s = Inl (e, s))"
      by (auto simp: in_scope_def split: sum.splits)
    then show ?thesis
    proof
      assume eq: "admit_links L st lvl (link # links) s = admit_links L st lvl links s"
      show ?thesis
        unfolding eq
        apply (rule exI [of _ new])
        using n by auto
    next
      assume "\<exists>e. admit_links L st lvl (link # links) s = Inl (e, s)"
      then obtain e where eq: "admit_links L st lvl (link # links) s = Inl (e, s)" by blast
      show ?thesis unfolding eq by (rule exI [of _ "[]"]) simp
    qed
  qed
qed

lemma follow_links_effect:
  "\<exists>new. result_state (follow_links E st url lvl html s) =
            s\<lparr>queue := queue s @ new, trace := trace s @ [Extract_links url]\<rparr> \<and>
         (\<forall>(u, l) \<in> set new. l = lvl + 1 \<and> u \<notin> visited s \<and> in_scope (lib E) st u)"
proof (cases "extract_links E url html")
  case (Inl e)
  show ?thesis
    by (rule exI [of _ "[]"]) (simp add: Inl follow_links_def emit_def)
next
  case (Inr links)
  let ?s = "emit (Extract_links url) s"
  from admit_links_effect [of "lib E" st lvl links ?s] obtain new where
    n: "result_state (admit_links (lib E) st lvl links ?s) = ?s\<lparr>queue := queue ?s @ new\<rparr>"
       "\<forall>(u, l) \<in> set new. l = lvl + 1 \<and> u \<in> set links \<and> u \<notin> visited ?s \<and> in_scope (lib E) st u"
    by blast
  show ?thesis
    apply (rule exI [of _ new])
    using n by (auto simp: Inr follow_links_def emit_def)
qed

lemma handle_response_effect:
  "\<exists>new evs. result_state (handle_response E C st url lvl status ctype content html s) =
            s\<lparr>queue := queue s @ new, trace := trace s @ evs\<rparr> \<and>
         (\<forall>(u, l) \<in> set new. l = lvl + 1 \<and> u \<notin> visited s \<and> in_scope (lib E) st u) \<and>
         requests evs = [] \<and>
         (case handle_response E C st url lvl status ctype content html s of
            Inl es \<Rightarrow> audit_log evs = []
          | Inr s' \<Rightarrow> (\<exists>sf. audit_log evs =
               [\<lparr>row_url = url, row_status = Num status, row_content_type = ctype, row_saved_file = sf\<rparr>]))"
proof (cases "status = 200 \<and> contains ''text/html'' (lower ctype)")
  case False
  then have eq: "handle_response E C st url lvl status ctype content html s =
      Inr (log_to_csv url (Num status) ctype [] s)"
    by (auto simp: handle_response_def)
  show ?thesis
    apply (rule exI [of _ "[]"])
    apply (rule exI [of _ "[Log_row \<lparr>row_url = url, row_status = Num status, row_content_type = ctype, row_saved_file = []\<rparr>]"])
    by (simp add: eq log_to_csv_def emit_def)
next
  case html: True
  show ?thesis
  proof (cases "save_html (lib E) (output_dir C) url")
    case (Inl e)
    with html have eq: "handle_response E C st url lvl status ctype content html s = Inl (e, s)"
      by (simp add: handle_response_def)
    show ?thesis
      apply (rule exI [of _ "[]"], rule exI [of _ "[]"])
      by (simp add: eq)
  next
    case (Inr sf)
    let ?s = "emit (Save_html sf content) s"
    let ?row = "\<lparr>row_url = url, row_status = Num status, row_content_type = ctype, row_saved_file = sf\<rparr>"
    show ?thesis
    proof (cases "lvl < depth C")
      case False
      with html Inr have eq: "handle_response E C st url lvl status ctype content html s =
          Inr (log_to_csv url (Num status) ctype sf ?s)"
        by (simp add: handle_response_def)
      show ?thesis
        apply (rule exI [of _ "[]"], rule exI [of _ "[Save_html sf content, Log_row ?row]"])
        by (simp add: eq log_to_csv_def emit_def)
    next
      case True
      from follow_links_effect [of E st url lvl html ?s] obtain new where
        n: "result_state (follow_links E st url lvl html ?s) =
              ?s\<lparr>queue := queue ?s @ new, trace := trace ?s @ [Extract_links url]\<rparr>"
           "\<forall>(u, l) \<in> set new. l = lvl + 1 \<and> u \<notin> visited ?s \<and> in_scope (lib E) st u"
        by blast
      from n(2) have sc: "\<forall>(u, l) \<in> set new. l = lvl + 1 \<and> u \<notin> visited s \<and> in_scope (lib E) st u"
        by auto
      show ?thesis
      proof (cases "follow_links E st url lvl html ?s")
        case (Inl es)
        with html Inr True have eq: "handle_response E C st url lvl status ctype content html s = Inl es"
          by (simp add: handle_response_def)
        from n(1) Inl have es: "snd es = s\<lparr>queue := queue s @ new, trace := trace s @ [Save_html sf content, Extract_links url]\<rparr>"
          by (simp add: emit_def result_state_def)
        show ?thesis
          apply (rule exI [of _ new], rule exI [of _ "[Save_html sf content, Extract_links url]"])
          using sc es by (simp add: eq result_state_def)
      next
        case (Inr s')
        with html \<open>save_html (lib E) (output_dir C) url = Inr sf\<close> True
        have eq: "handle_response E C st url lvl status ctype content html s =
            Inr (log_to_csv url (Num status) ctype sf s')"
          by (simp add: handle_response_def)
        from n(1) Inr have s': "s' = s\<lparr>queue := queue s @ new, trace := trace s @ [Save_html sf content, Extract_links url]\<rparr>"
          by (simp add: emit_def)
        show ?thesis
          apply (rule exI [of _ new], rule exI [of _ "[Save_html sf content, Extract_links url, Log_row ?row]"])
          using sc by (simp add: eq s' log_to_csv_def emit_def)
      qed
    qed
  qed
qed

lemma finish_target_effect:
  "\<exists>evs. result_state (finish_target E C url s) =
           s\<lparr>visited := insert url (visited s), processed := processed s + 1,
             trace := trace s @ Visited_add url # evs\<rparr> \<and>
         (evs = [] \<or> evs = [Sleep (delay C)])"
proof (cases "time_sleep E (delay C)")
  case (Some e)
  show ?thesis by (rule exI [of _ "[]"]) (simp add: finish_target_def emit_def Some)
next
  case None
  show ?thesis by (rule exI [of _ "[Sleep (delay C)]"]) (simp add: finish_target_def emit_def None)
qed

lemma crawl_step_skip:
  assumes "queue s = (url, level) # rest" and "url \<in> visited s \<or> level > depth C"
  shows "crawl_step E C st sess rp s = Inr (s\<lparr>queue := rest\<rparr>)"
  using assms by (auto simp: crawl_step_def)

lemma error_status_not_blocked: "\<not> robots_blocked \<lparr>row_url = u, row_status = Str (''error:'' @ kind), row_content_type = ct, row_saved_file = sf\<rparr>"
  by (simp add: robots_blocked_def)

lemma crawl_step_effect:
  assumes q: "queue s = (url, level) # rest" and nv: "url \<notin> visited s" and lv: "level \<le> depth C"
  shows "\<exists>new evs vis.
     result_state (crawl_step E C st sess rp s) =
       \<lparr>visited = vis, queue = rest @ new,
        processed = processed s + int (length (filter (\<lambda>r. \<not> robots_blocked r) (audit_log evs))),
        trace = trace s @ evs\<rparr> \<and>
     (\<forall>(u, l) \<in> set new. l = level + 1 \<and> u \<notin> visited s \<and> in_scope (lib E) st u) \<and>
     (requests evs = [] \<or> requests evs = [url]) \<and>
     (audit_log evs = [] \<or> (\<exists>row. audit_log evs = [row] \<and> row_url row = url)) \<and>
     (vis = visited s \<or> vis = insert url (visited s)) \<and>
     (audit_log evs \<noteq> [] \<longrightarrow> vis = insert url (visited s)) \<and>
     (\<not> isl (crawl_step E C st sess rp s) \<longrightarrow> vis = insert url (visited s))"
proof (cases "respect_robots C \<and> \<not> is_allowed rp (user_agent C) url")
  case True
  let ?row = "\<lparr>row_url = url, row_status = Str ''robots_blocked'', row_content_type = [], row_saved_file = []\<rparr>"
  from q nv lv True have eq: "crawl_step E C st sess rp s =
      Inr (s\<lparr>queue := rest, visited := insert url (visited s),
              trace := trace s @ [Is_allowed url, Log_row ?row, Visited_add url]\<rparr>)"
    by (simp add: crawl_step_def log_to_csv_def emit_def)
  show ?thesis
    unfolding eq
    apply (rule exI [of _ "[]"], rule exI [of _ "[Is_allowed url, Log_row ?row, Visited_add url]"])
    apply (rule exI [of _ "insert url (visited s)"])
    by (simp add: robots_blocked_def)
next
  case False
  define pre where "pre = (if respect_robots C then [Is_allowed url] else []) @ [Http_get url]"
  define s2 where "s2 = s\<lparr>queue := rest, trace := trace s @ pre\<rparr>"
  have pre: "requests pre = [url]" "audit_log pre = []" by (simp_all add: pre_def)
  have s2_alt:
    "respect_robots C \<Longrightarrow> emit (Http_get url) (emit (Is_allowed url) (s\<lparr>queue := rest\<rparr>)) = s2"
    "\<not> respect_robots C \<Longrightarrow> emit (Http_get url) (s\<lparr>queue := rest\<rparr>) = s2"
    by (simp_all add: s2_def pre_def emit_def)
  from q nv lv False have eq: "crawl_step E C st sess rp s =
      (case http_get E sess url of
         Response status header content html \<Rightarrow>
           (case handle_response E C st url level status
                   (case header of None \<Rightarrow> [] | Some v \<Rightarrow> v) content html s2 of
              Inl es \<Rightarrow> Inl es
            | Inr s3 \<Rightarrow> finish_target E C url s3)
       | Raises_RequestException kind \<Rightarrow>
           finish_target E C url (log_to_csv url (Str (''error:'' @ kind)) [] [] s2)
       | Raises_other kind \<Rightarrow> Inl (Uncaught kind, s2))"
    by (cases "respect_robots C"; cases "http_get E sess url")
       (simp_all add: crawl_step_def Let_def s2_alt)
  show ?thesis
  proof (cases "http_get E sess url")
    case (Raises_other kind)
    show ?thesis
      unfolding eq Raises_other
      apply (rule exI [of _ "[]"], rule exI [of _ pre], rule exI [of _ "visited s"])
      by (simp add: s2_def pre)
  next
    case (Raises_RequestException kind)
    let ?row = "\<lparr>row_url = url, row_status = Str (''error:'' @ kind), row_content_type = [], row_saved_file = []\<rparr>"
    let ?s3 = "log_to_csv url (Str (''error:'' @ kind)) [] [] s2"
    from finish_target_effect [of E C url ?s3] obtain post where
      p: "result_state (finish_target E C url ?s3) =
            ?s3\<lparr>visited := insert url (visited ?s3), processed := processed ?s3 + 1,
                 trace := trace ?s3 @ Visited_add url # post\<rparr>"
         "post = [] \<or> post = [Sleep (delay C)]"
      by blast
    from p(2) have post: "requests post = []" "audit_log post = []" by auto
    have r: "crawl_step E C st sess rp s = finish_target E C url ?s3"
      by (simp add: eq Raises_RequestException)
    show ?thesis
      unfolding r
      apply (rule exI [of _ "[]"], rule exI [of _ "pre @ Log_row ?row # Visited_add url # post"])
      apply (rule exI [of _ "insert url (visited s)"])
      using p(1) by (simp add: s2_def pre post robots_blocked_def)
  next
    case (Response status header content html)
    define ctype where "ctype = (case header of None \<Rightarrow> [] | Some v \<Rightarrow> v)"
    from handle_response_effect [of E C st url level status ctype content html s2]
    obtain new evs where
      h: "result_state (handle_response E C st url level status ctype content html s2) =
            s2\<lparr>queue := queue s2 @ new, trace := trace s2 @ evs\<rparr>"
         "\<forall>(u, l) \<in> set new. l = level + 1 \<and> u \<notin> visited s2 \<and> in_scope (lib E) st u"
         "requests evs = []"
         "case handle_response E C st url level status ctype content html s2 of
            Inl es \<Rightarrow> audit_log evs = []
          | Inr s' \<Rightarrow> (\<exists>sf. audit_log evs =
               [\<lparr>row_url = url, row_status = Num status, row_content_type = ctype, row_saved_file = sf\<rparr>])"
      by blast
    from h(2) have sc: "\<forall>(u, l) \<in> set new. l = level + 1 \<and> u \<notin> visited s \<and> in_scope (lib E) st u"
      by (simp add: s2_def)
    show ?thesis
    proof (cases "handle_response E C st url level status ctype content html s2")
      case (Inl es)
      from h(1) Inl have es: "snd es = s2\<lparr>queue := queue s2 @ new, trace := trace s2 @ evs\<rparr>"
        by (simp add: result_state_def)
      from h(4) Inl have al: "audit_log evs = []" by simp
      have r: "crawl_step E C st sess rp s = Inl es"
        by (simp add: eq Response ctype_def [symmetric] Inl)
      show ?thesis
        unfolding r
        apply (rule exI [of _ new], rule exI [of _ "pre @ evs"], rule exI [of _ "visited s"])
        using sc by (simp add: result_state_def es s2_def pre h(3) al)
    next
      case (Inr s3)
      from h(1) Inr have s3: "s3 = s2\<lparr>queue := queue s2 @ new, trace := trace s2 @ evs\<rparr>" by simp
      from h(4) Inr obtain sf where
        al: "audit_log evs = [\<lparr>row_url = url, row_status = Num status, row_content_type = ctype, row_saved_file = sf\<rparr>]"
        by auto
      from finish_target_effect [of E C url s3] obtain post where
        p: "result_state (finish_target E C url s3) =
              s3\<lparr>visited := insert url (visited s3), processed := processed s3 + 1,
                  trace := trace s3 @ Visited_add url # post\<rparr>"
           "post = [] \<or> post = [Sleep (delay C)]"
        by blast
      from p(2) have post: "requests post = []" "audit_log post = []" by auto
      have r: "crawl_step E C st sess rp s = finish_target E C url s3"
        by (simp add: eq Response ctype_def [symmetric] Inr)
      have nl: "\<not> isl (finish_target E C url s3) \<longrightarrow> True" by simp
      show ?thesis
        unfolding r
        apply (rule exI [of _ new], rule exI [of _ "pre @ evs @ Visited_add url # post"])
        apply (rule exI [of _ "insert url (visited s)"])
        using sc p(1) by (simp add: s3 s2_def pre post h(3) al robots_blocked_def)
    qed
  qed
qed


lemma crawl_inv_init: "crawl_inv L C st (init_state st)"
  by (simp add: crawl_inv_def crawl_safe_def init_state_def)

lemma crawl_step_inv:
  assumes I: "crawl_inv (lib E) C st s" and g: "queue s \<noteq> []" "processed s < max_pages C"
  shows "case crawl_step E C st sess rp s of
           Inl es \<Rightarrow> crawl_safe (lib E) C st (snd es)
         | Inr s' \<Rightarrow> crawl_inv (lib E) C st s'"
proof -
  from g(1) obtain url level rest where q: "queue s = (url, level) # rest"
    by (cases "queue s") auto
  show ?thesis
  proof (cases "url \<in> visited s \<or> level > depth C")
    case True
    from crawl_step_skip [OF q True] have eq: "crawl_step E C st sess rp s = Inr (s\<lparr>queue := rest\<rparr>)" .
    from I q show ?thesis
      unfolding eq by (auto simp: crawl_inv_def crawl_safe_def)
  next
    case False
    then have nv: "url \<notin> visited s" and lv: "level \<le> depth C" by auto
    from crawl_step_effect [OF q nv lv, of E st sess rp] obtain new evs vis where
      r: "result_state (crawl_step E C st sess rp s) =
            \<lparr>visited = vis, queue = rest @ new,
             processed = processed s + int (length (filter (\<lambda>r. \<not> robots_blocked r) (audit_log evs))),
             trace = trace s @ evs\<rparr>"
      and sc: "\<forall>(u, l) \<in> set new. l = level + 1 \<and> u \<notin> visited s \<and> in_scope (lib E) st u"
      and rq: "requests evs = [] \<or> requests evs = [url]"
      and al: "audit_log evs = [] \<or> (\<exists>row. audit_log evs = [row] \<and> row_url row = url)"
      and vis: "vis = visited s \<or> vis = insert url (visited s)"
      and alv: "audit_log evs \<noteq> [] \<longrightarrow> vis = insert url (visited s)"
      and ok: "\<not> isl (crawl_step E C st sess rp s) \<longrightarrow> vis = insert url (visited s)"
      by blast
    define s' where "s' = result_state (crawl_step E C st sess rp s)"
    from I have rows_v: "set (map row_url (audit_log (trace s))) \<subseteq> visited s"
      and req_v: "set (requests (trace s)) \<subseteq> visited s"
      and S: "crawl_safe (lib E) C st s"
      by (simp_all add: crawl_inv_def)
    from S q have url_sc: "url = st \<or> in_scope (lib E) st url"
      by (simp add: crawl_safe_def)
    have d1: "distinct (map row_url (audit_log (trace s')))"
      using S rows_v nv al by (auto simp: s'_def r crawl_safe_def)
    have d2: "distinct (requests (trace s'))"
      using S req_v nv rq by (auto simp: s'_def r crawl_safe_def)
    have p1: "processed s' = int (length (filter (\<lambda>r. \<not> robots_blocked r) (audit_log (trace s'))))"
      using S by (simp add: s'_def r crawl_safe_def)
    have "length (filter (\<lambda>r. \<not> robots_blocked r) (audit_log evs)) \<le> 1"
      using al by auto
    then have p2: "processed s' \<le> max 0 (max_pages C)"
      using g(2) by (simp add: s'_def r)
    have sc': "\<forall>u \<in> set (requests (trace s')) \<union> set (map row_url (audit_log (trace s'))) \<union> fst ` set (queue s').
         u = st \<or> in_scope (lib E) st u"
      using S q sc rq al url_sc by (auto simp: s'_def r crawl_safe_def)
    have safe: "crawl_safe (lib E) C st s'"
      using d1 d2 p1 p2 sc' by (simp add: crawl_safe_def)
    show ?thesis
    proof (cases "crawl_step E C st sess rp s")
      case (Inl es)
      then have "snd es = s'" by (simp add: s'_def result_state_def)
      with safe Inl show ?thesis by simp
    next
      case (Inr s'')
      then have e: "s'' = s'" by (simp add: s'_def)
      from Inr ok have v: "vis = insert url (visited s)" by simp
      have "set (map row_url (audit_log (trace s'))) \<subseteq> visited s'"
        using rows_v al by (auto simp: s'_def r v)
      moreover have "set (requests (trace s')) \<subseteq> visited s'"
        using req_v rq by (auto simp: s'_def r v)
      ultimately show ?thesis using safe Inr e by (simp add: crawl_inv_def)
    qed
  qed
qed

lemma crawl_inv_safe: "crawl_inv L C st s \<Longrightarrow> crawl_safe L C st s"
  by (simp add: crawl_inv_def)

lemma crawl_loop_safe:
  "crawl_inv (lib E) C st s \<Longrightarrow> crawl_safe (lib E) C st (state_of (crawl_loop n E C st sess rp s))"
proof (induction n arbitrary: s)
  case 0
  then show ?case by (simp add: state_of_def crawl_inv_safe)
next
  case (Suc n)
  show ?case
  proof (cases "queue s \<noteq> [] \<and> processed s < max_pages C")
    case False
    with Suc.prems show ?thesis by (auto simp: state_of_def crawl_inv_safe)
  next
    case True
    then have g: "queue s \<noteq> []" "processed s < max_pages C" by auto
    from crawl_step_inv [OF Suc.prems g, of sess rp] Suc.IH True show ?thesis
      by (auto simp: state_of_def split: sum.splits)
  qed
qed

lemma crawl_safe_no_state: "crawl_safe L C st no_state"
  by (simp add: crawl_safe_def no_state_def)

lemma crawl_cases:
  obtains (crashed) e where "crawl n E C start_url = Crashed e no_state"
  | (looping) st rp where "normalize_url (lib E) start_url = Inr st"
      "crawl n E C start_url =
         crawl_loop n E C st (setup_session (use_tor C) (user_agent C)) rp (init_state st)"
proof (cases "normalize_url (lib E) start_url")
  case (Inl e)
  then have "crawl n E C start_url = Crashed e no_state" by (simp add: crawl_def)
  then show ?thesis by (rule crashed)
next
  case st: (Inr st)
  show ?thesis
  proof (cases "if respect_robots C then load_robots_txt E st else Inr None")
    case (Inl e)
    with st have "crawl n E C start_url = Crashed e no_state" by (simp add: crawl_def)
    then show ?thesis by (rule crashed)
  next
    case (Inr rp)
    with st have "crawl n E C start_url =
        crawl_loop n E C st (setup_session (use_tor C) (user_agent C)) rp (init_state st)"
      by (simp add: crawl_def)
    with st show ?thesis by (rule looping)
  qed
qed

lemma crawl_safe_crawl:
  "\<exists>st. crawl_safe (lib E) C st (state_of (crawl n E C start_url)) \<and>
        (normalize_url (lib E) start_url = Inr st \<or> state_of (crawl n E C start_url) = no_state)"
proof (cases n E C start_url rule: crawl_cases)
  case (crashed e)
  then show ?thesis by (auto simp: state_of_def crawl_safe_no_state)
next
  case (looping st rp)
  from crawl_loop_safe [OF crawl_inv_init, of E C st n] looping show ?thesis by auto
qed

section \<open>The crawler run on the small world\<close>

lemma demo_run_10:
  "crawl 6 demo_env demo_config_10 ''http://example.com'' =
   Finished
    \<lparr>visited = {''http://example.com/img.png'', ''http://notexample.com/'',
        ''http://example.com/a'', ''http://example.com/secret'', ''http://example.com/''},
     queue = [], processed = 4,
     trace =
       [Is_allowed ''http://example.com/'',
        Http_get ''http://example.com/'',
        Save_html ''tor_output/example.com_index.html'' ''<a href=...>'',
        Extract_links ''http://example.com/'',
        Log_row \<lparr>row_url = ''http://example.com/'', row_status = Num 200,
            row_content_type = ''Text/HTML; charset=utf-8'',
            row_saved_file = ''tor_output/example.com_index.html''\<rparr>,
        Visited_add ''http://example.com/'', Sleep (Finite 2),
        Is_allowed ''http://example.com/secret'',
        Log_row \<lparr>row_url = ''http://example.com/secret'',
            row_status = Str ''robots_blocked'', row_content_type = [],
            row_saved_file = []\<rparr>,
        Visited_add ''http://example.com/secret'',
        Is_allowed ''http://example.com/a'',
        Http_get ''http://example.com/a'',
        Log_row \<lparr>row_url = ''http://example.com/a'',
            row_status = Str ''error:Timeout'', row_content_type = [],
            row_saved_file = []\<rparr>,
        Visited_add ''http://example.com/a'', Sleep (Finite 2),
        Is_allowed ''http://notexample.com/'',
        Http_get ''http://notexample.com/'',
        Save_html ''tor_output/notexample.com_index.html'' ''evil'',
        Log_row \<lparr>row_url = ''http://notexample.com/'', row_status = Num 200,
            row_content_type = ''text/html'',
            row_saved_file = ''tor_output/notexample.com_index.html''\<rparr>,
        Visited_add ''http://notexample.com/'', Sleep (Finite 2),
        Is_allowed ''http://example.com/img.png'',
        Http_get ''http://example.com/img.png'',
        Log_row \<lparr>row_url = ''http://example.com/img.png'', row_status = Num 200,
            row_content_type = ''image/png'', row_saved_file = []\<rparr>,
        Visited_add ''http://example.com/img.png'', Sleep (Finite 2)]\<rparr>"
  by code_simp

lemma demo_run_2:
  "crawl 3 demo_env demo_config ''http://example.com'' =
   Finished
    \<lparr>visited = {''http://example.com/a'', ''http://example.com/secret'', ''http://example.com/''},
     queue = [(''http://notexample.com/'', 1), (''http://example.com/'', 1),
              (''http://example.com/img.png'', 1)],
     processed = 2,
     trace =
       [Is_allowed ''http://example.com/'',
        Http_get ''http://example.com/'',
        Save_html ''tor_output/example.com_index.html'' ''<a href=...>'',
        Extract_links ''http://example.com/'',
        Log_row \<lparr>row_url = ''http://example.com/'', row_status = Num 200,
            row_content_type = ''Text/HTML; charset=utf-8'',
            row_saved_file = ''tor_output/example.com_index.html''\<rparr>,
        Visited_add ''http://example.com/'', Sleep (Finite 2),
        Is_allowed ''http://example.com/secret'',
        Log_row \<lparr>row_url = ''http://example.com/secret'',
            row_status = Str ''robots_blocked'', row_content_type = [],
            row_saved_file = []\<rparr>,
        Visited_add ''http://example.com/secret'',
        Is_allowed ''http://example.com/a'',
        Http_get ''http://example.com/a'',
        Log_row \<lparr>row_url = ''http://example.com/a'',
            row_status = Str ''error:Timeout'', row_content_type = [],
            row_saved_file = []\<rparr>,
        Visited_add ''http://example.com/a'', Sleep (Finite 2)]\<rparr>"
  by code_simp

lemma demo_run_1:
  "crawl 1 demo_env demo_config ''http://example.com'' =
   Running
    \<lparr>visited = {''http://example.com/''},
     queue = [(''http://example.com/secret'', 1), (''http://example.com/a'', 1),
              (''http://notexample.com/'', 1), (''http://example.com/'', 1),
              (''http://example.com/img.png'', 1)],
     processed = 1,
     trace =
       [Is_allowed ''http://example.com/'',
        Http_get ''http://example.com/'',
        Save_html ''tor_output/example.com_index.html'' ''<a href=...>'',
        Extract_links ''http://example.com/'',
        Log_row \<lparr>row_url = ''http://example.com/'', row_status = Num 200,
            row_content_type = ''Text/HTML; charset=utf-8'',
            row_saved_file = ''tor_output/example.com_index.html''\<rparr>,
        Visited_add ''http://example.com/'', Sleep (Finite 2)]\<rparr>"
  by code_simp

lemma demo_normalize_seed:
  "normalize_url (lib demo_env) ''http://example.com'' = Inr ''http://example.com/''"
  by code_simp

lemma demo_domains:
  "get_domain demo_lib ''http://example.com/'' = Inr ''example.com''"
  "get_domain demo_lib ''http://notexample.com/'' = Inr ''notexample.com''"
  by code_simp+

lemma demo_lib_env [simp]: "lib demo_env = demo_lib"
  by (simp add: demo_env_def)

section \<open>The branches of one iteration\<close>

lemma new_events_append: "trace s' = trace s @ evs \<Longrightarrow> new_events s s' = evs"
  by (simp add: new_events_def)

lemma crawl_step_unblocked:
  assumes q: "queue s = (url, level) # rest" and nv: "url \<notin> visited s" and lv: "level \<le> depth C"
    and ok: "respect_robots C \<longrightarrow> is_allowed rp (user_agent C) url"
  shows "crawl_step E C st sess rp s =
      (case http_get E sess url of
         Response status header content html \<Rightarrow>
           (case handle_response E C st url level status
                   (case header of None \<Rightarrow> [] | Some v \<Rightarrow> v) content html
                   (s\<lparr>queue := rest,
                      trace := trace s @ (if respect_robots C then [Is_allowed url] else []) @ [Http_get url]\<rparr>) of
              Inl es \<Rightarrow> Inl es
            | Inr s3 \<Rightarrow> finish_target E C url s3)
       | Raises_RequestException kind \<Rightarrow>
           finish_target E C url (log_to_csv url (Str (''error:'' @ kind)) [] []
             (s\<lparr>queue := rest,
                trace := trace s @ (if respect_robots C then [Is_allowed url] else []) @ [Http_get url]\<rparr>))
       | Raises_other kind \<Rightarrow>
           Inl (Uncaught kind,
             s\<lparr>queue := rest,
               trace := trace s @ (if respect_robots C then [Is_allowed url] else []) @ [Http_get url]\<rparr>))"
  using assms
  by (cases "respect_robots C"; cases "http_get E sess url")
     (simp_all add: crawl_step_def Let_def emit_def)

lemma crawl_step_blocked:
  assumes q: "queue s = (url, level) # rest" and nv: "url \<notin> visited s" and lv: "level \<le> depth C"
    and blocked: "respect_robots C" "\<not> is_allowed rp (user_agent C) url"
  shows "crawl_step E C st sess rp s =
      Inr \<lparr>visited = insert url (visited s), queue = rest, processed = processed s,
           trace = trace s @ [Is_allowed url,
             Log_row \<lparr>row_url = url, row_status = Str ''robots_blocked'', row_content_type = [],
                      row_saved_file = []\<rparr>,
             Visited_add url]\<rparr>"
  using assms by (simp add: crawl_step_def log_to_csv_def emit_def)

lemma finish_target_ok:
  "time_sleep E (delay C) = None \<Longrightarrow> finish_target E C url s =
     Inr (s\<lparr>visited := insert url (visited s), processed := processed s + 1,
            trace := trace s @ [Visited_add url, Sleep (delay C)]\<rparr>)"
  by (simp add: finish_target_def emit_def)

lemma in_scope_iff:
  "in_scope L st u \<longleftrightarrow>
     (\<exists>d d0. get_domain L u = Inr d \<and> get_domain L st = Inr d0 \<and> suffix d0 d)"
  by (auto simp: in_scope_def split: sum.splits)

lemma crawl_safe_run:
  "\<exists>st. crawl_safe (lib E) C st (state_of (crawl n E C start_url))"
  using crawl_safe_crawl [of E C n start_url] by blast

lemma crawl_step_shape:
  fixes E :: env and st :: string and sess :: session
  assumes q: "queue s = (url, level) # rest" and nv: "url \<notin> visited s" and lv: "level \<le> depth C"
    and ok: "respect_robots C \<longrightarrow> is_allowed rp (user_agent C) url"
  defines "pre \<equiv> (if respect_robots C then [Is_allowed url] else []) @ [Http_get url]"
  defines "r \<equiv> crawl_step E C st sess rp s"
  obtains
    (other) kind where "http_get E sess url = Raises_other kind"
      "r = Inl (Uncaught kind, s\<lparr>queue := rest, trace := trace s @ pre\<rparr>)"
  | (error) kind where "http_get E sess url = Raises_RequestException kind"
      "r = finish_target E C url (s\<lparr>queue := rest, trace := trace s @ pre @
             [Log_row \<lparr>row_url = url, row_status = Str (''error:'' @ kind),
                      row_content_type = [], row_saved_file = []\<rparr>]\<rparr>)"
  | (plain) status header content html where
      "http_get E sess url = Response status header content html"
      "\<not> html_ok status (header_value header)"
      "r = finish_target E C url (s\<lparr>queue := rest, trace := trace s @ pre @
             [Log_row \<lparr>row_url = url, row_status = Num status,
                      row_content_type = header_value header, row_saved_file = []\<rparr>]\<rparr>)"
  | (unsaved) status header content html e where
      "http_get E sess url = Response status header content html"
      "html_ok status (header_value header)"
      "save_html (lib E) (output_dir C) url = Inl e"
      "r = Inl (e, s\<lparr>queue := rest, trace := trace s @ pre\<rparr>)"
  | (leaf) status header content html path where
      "http_get E sess url = Response status header content html"
      "html_ok status (header_value header)"
      "save_html (lib E) (output_dir C) url = Inr path"
      "level = depth C"
      "r = finish_target E C url (s\<lparr>queue := rest, trace := trace s @ pre @
             [Save_html path content,
              Log_row \<lparr>row_url = url, row_status = Num status,
                      row_content_type = header_value header, row_saved_file = path\<rparr>]\<rparr>)"
  | (lost) status header content html path e new where
      "http_get E sess url = Response status header content html"
      "html_ok status (header_value header)"
      "save_html (lib E) (output_dir C) url = Inr path"
      "level < depth C"
      "r = Inl (e, s\<lparr>queue := rest @ new, trace := trace s @ pre @
             [Save_html path content, Extract_links url]\<rparr>)"
  | (inner) status header content html path new where
      "http_get E sess url = Response status header content html"
      "html_ok status (header_value header)"
      "save_html (lib E) (output_dir C) url = Inr path"
      "level < depth C"
      "r = finish_target E C url (s\<lparr>queue := rest @ new, trace := trace s @ pre @
             [Save_html path content, Extract_links url,
              Log_row \<lparr>row_url = url, row_status = Num status,
                      row_content_type = header_value header, row_saved_file = path\<rparr>]\<rparr>)"
proof -
  define s2 where "s2 = s\<lparr>queue := rest, trace := trace s @ pre\<rparr>"
  note step = crawl_step_unblocked [OF q nv lv ok, of E st sess, folded pre_def r_def s2_def]
  show thesis
  proof (cases "http_get E sess url")
    case (Raises_other kind)
    with step have "r = Inl (Uncaught kind, s2)" by simp
    with Raises_other show thesis unfolding s2_def by (rule other)
  next
    case (Raises_RequestException kind)
    with step have "r = finish_target E C url (log_to_csv url (Str (''error:'' @ kind)) [] [] s2)"
      by simp
    then have "r = finish_target E C url (s\<lparr>queue := rest, trace := trace s @ pre @
             [Log_row \<lparr>row_url = url, row_status = Str (''error:'' @ kind),
                      row_content_type = [], row_saved_file = []\<rparr>]\<rparr>)"
      by (simp add: s2_def log_to_csv_def emit_def)
    with Raises_RequestException show thesis by (rule error)
  next
    case (Response status header content html)
    define ctype where "ctype = header_value header"
    from step Response have r: "r =
        (case handle_response E C st url level status ctype content html s2 of
           Inl es \<Rightarrow> Inl es | Inr s3 \<Rightarrow> finish_target E C url s3)"
      by (simp add: ctype_def header_value_def)
    show thesis
    proof (cases "html_ok status ctype")
      case False
      then have "handle_response E C st url level status ctype content html s2 =
          Inr (log_to_csv url (Num status) ctype [] s2)"
        by (auto simp: handle_response_def html_ok_def)
      with r have "r = finish_target E C url (s\<lparr>queue := rest, trace := trace s @ pre @
             [Log_row \<lparr>row_url = url, row_status = Num status,
                      row_content_type = header_value header, row_saved_file = []\<rparr>]\<rparr>)"
        by (simp add: s2_def log_to_csv_def emit_def ctype_def)
      with Response False show thesis unfolding ctype_def by (rule plain)
    next
      case True
      then have h: "status = 200 \<and> contains ''text/html'' (lower ctype)" by (simp add: html_ok_def)
      show thesis
      proof (cases "save_html (lib E) (output_dir C) url")
        case (Inl e)
        with h have "handle_response E C st url level status ctype content html s2 = Inl (e, s2)"
          by (simp add: handle_response_def)
        with r have "r = Inl (e, s\<lparr>queue := rest, trace := trace s @ pre\<rparr>)" by (simp add: s2_def)
        with Response True Inl show thesis unfolding ctype_def by (rule unsaved)
      next
        case (Inr path)
        show thesis
        proof (cases "level < depth C")
          case False
          with lv have eq: "level = depth C" by simp
          from False h Inr have "handle_response E C st url level status ctype content html s2 =
              Inr (log_to_csv url (Num status) ctype path (emit (Save_html path content) s2))"
            by (simp add: handle_response_def)
          with r have "r = finish_target E C url (s\<lparr>queue := rest, trace := trace s @ pre @
             [Save_html path content,
              Log_row \<lparr>row_url = url, row_status = Num status,
                      row_content_type = header_value header, row_saved_file = path\<rparr>]\<rparr>)"
            by (simp add: s2_def log_to_csv_def emit_def ctype_def)
          with Response True Inr eq show thesis unfolding ctype_def by (rule leaf)
        next
          case lt: True
          let ?s = "emit (Save_html path content) s2"
          from lt h Inr have hr: "handle_response E C st url level status ctype content html s2 =
              (case follow_links E st url level html ?s of
                 Inl es \<Rightarrow> Inl es
               | Inr s' \<Rightarrow> Inr (log_to_csv url (Num status) ctype path s'))"
            by (cases "follow_links E st url level html ?s") (simp_all add: handle_response_def)
          from follow_links_effect [of E st url level html ?s] obtain new where
            n: "result_state (follow_links E st url level html ?s) =
                  ?s\<lparr>queue := queue ?s @ new, trace := trace ?s @ [Extract_links url]\<rparr>"
            by blast
          show thesis
          proof (cases "follow_links E st url level html ?s")
            case (Inl es)
            obtain e s' where es: "es = (e, s')" by (cases es)
            with n Inl have "s' = s\<lparr>queue := rest @ new, trace := trace s @ pre @
                 [Save_html path content, Extract_links url]\<rparr>"
              by (simp add: s2_def emit_def)
            with r hr Inl es have "r = Inl (e, s\<lparr>queue := rest @ new, trace := trace s @ pre @
                 [Save_html path content, Extract_links url]\<rparr>)"
              by simp
            with Response True \<open>save_html (lib E) (output_dir C) url = Inr path\<close> lt show thesis
              unfolding ctype_def by (rule lost)
          next
            case (Inr s')
            with n have "s' = s\<lparr>queue := rest @ new, trace := trace s @ pre @
                 [Save_html path content, Extract_links url]\<rparr>"
              by (simp add: s2_def emit_def)
            with r hr Inr have "r = finish_target E C url (s\<lparr>queue := rest @ new, trace := trace s @ pre @
                 [Save_html path content, Extract_links url,
                  Log_row \<lparr>row_url = url, row_status = Num status,
                          row_content_type = header_value header, row_saved_file = path\<rparr>]\<rparr>)"
              by (simp add: log_to_csv_def emit_def ctype_def)
            with Response True \<open>save_html (lib E) (output_dir C) url = Inr path\<close> lt show thesis
              unfolding ctype_def by (rule inner)
          qed
        qed
      qed
    qed
  qed
qed

lemma finish_target_cases:
  obtains (crash) e where "time_sleep E (delay C) = Some e"
      "finish_target E C url s = Inl (e,
         s\<lparr>visited := insert url (visited s), processed := processed s + 1,
           trace := trace s @ [Visited_add url]\<rparr>)"
  | (slept) "time_sleep E (delay C) = None"
      "finish_target E C url s = Inr
         (s\<lparr>visited := insert url (visited s), processed := processed s + 1,
            trace := trace s @ [Visited_add url, Sleep (delay C)]\<rparr>)"
  by (cases "time_sleep E (delay C)") (simp_all add: finish_target_def emit_def)

lemma finish_target_state:
  "\<exists>post. result_state (finish_target E C url s) =
       s\<lparr>visited := insert url (visited s), processed := processed s + 1,
         trace := trace s @ Visited_add url # post\<rparr> \<and>
     (post = [] \<or> post = [Sleep (delay C)]) \<and>
     (\<not> isl (finish_target E C url s) \<longrightarrow> post = [Sleep (delay C)])"
proof (cases E C url s rule: finish_target_cases)
  case crash
  show ?thesis by (rule exI [of _ "[]"]) (simp add: crash)
next
  case slept
  show ?thesis by (rule exI [of _ "[Sleep (delay C)]"]) (simp add: slept)
qed

lemma new_events_finish:
  assumes "trace s0 = trace s @ evs"
  shows "\<exists>post. new_events s (result_state (finish_target E C url s0)) = evs @ Visited_add url # post \<and>
           (post = [] \<or> post = [Sleep (delay C)]) \<and>
           (\<not> isl (finish_target E C url s0) \<longrightarrow> post = [Sleep (delay C)]) \<and>
           queue (result_state (finish_target E C url s0)) = queue s0 \<and>
           visited (result_state (finish_target E C url s0)) = insert url (visited s0)"
proof -
  from finish_target_state [of E C url s0] obtain post where
    p: "result_state (finish_target E C url s0) =
       s0\<lparr>visited := insert url (visited s0), processed := processed s0 + 1,
         trace := trace s0 @ Visited_add url # post\<rparr>"
     "post = [] \<or> post = [Sleep (delay C)]"
     "\<not> isl (finish_target E C url s0) \<longrightarrow> post = [Sleep (delay C)]"
    by blast
  show ?thesis
    apply (rule exI [of _ post])
    using p(2,3) by (simp add: p(1) new_events_def assms)
qed

lemma crawl_step_events:
  fixes E :: env and C :: config and st :: string and sess :: session
    and rp :: "robot_parser option"
  assumes q: "queue s = (url, level) # rest" and nv: "url \<notin> visited s" and lv: "level \<le> depth C"
    and ok: "respect_robots C \<longrightarrow> is_allowed rp (user_agent C) url"
  defines "pre \<equiv> (if respect_robots C then [Is_allowed url] else []) @ [Http_get url]"
  defines "r \<equiv> crawl_step E C st sess rp s"
  defines "s' \<equiv> result_state (crawl_step E C st sess rp s)"
  obtains
    (other) kind where "http_get E sess url = Raises_other kind" "isl r"
      "new_events s s' = pre" "queue s' = rest"
  | (error) kind post where "http_get E sess url = Raises_RequestException kind"
      "new_events s s' = pre @
             [Log_row \<lparr>row_url = url, row_status = Str (''error:'' @ kind),
                      row_content_type = [], row_saved_file = []\<rparr>, Visited_add url] @ post"
      "post = [] \<or> post = [Sleep (delay C)]" "\<not> isl r \<longrightarrow> post = [Sleep (delay C)]"
      "queue s' = rest" "visited s' = insert url (visited s)"
  | (plain) status header content html post where
      "http_get E sess url = Response status header content html"
      "\<not> html_ok status (header_value header)"
      "new_events s s' = pre @
             [Log_row \<lparr>row_url = url, row_status = Num status,
                      row_content_type = header_value header, row_saved_file = []\<rparr>,
              Visited_add url] @ post"
      "post = [] \<or> post = [Sleep (delay C)]" "\<not> isl r \<longrightarrow> post = [Sleep (delay C)]"
      "queue s' = rest" "visited s' = insert url (visited s)"
  | (unsaved) status header content html e where
      "http_get E sess url = Response status header content html"
      "html_ok status (header_value header)"
      "save_html (lib E) (output_dir C) url = Inl e" "isl r"
      "new_events s s' = pre" "queue s' = rest"
  | (leaf) status header content html path post where
      "http_get E sess url = Response status header content html"
      "html_ok status (header_value header)"
      "save_html (lib E) (output_dir C) url = Inr path"
      "level = depth C"
      "new_events s s' = pre @
             [Save_html path content,
              Log_row \<lparr>row_url = url, row_status = Num status,
                      row_content_type = header_value header, row_saved_file = path\<rparr>,
              Visited_add url] @ post"
      "post = [] \<or> post = [Sleep (delay C)]" "\<not> isl r \<longrightarrow> post = [Sleep (delay C)]"
      "queue s' = rest" "visited s' = insert url (visited s)"
  | (lost) status header content html path new where
      "http_get E sess url = Response status header content html"
      "html_ok status (header_value header)"
      "save_html (lib E) (output_dir C) url = Inr path"
      "level < depth C" "isl r"
      "new_events s s' = pre @ [Save_html path content, Extract_links url]"
      "queue s' = rest @ new"
  | (inner) status header content html path new post where
      "http_get E sess url = Response status header content html"
      "html_ok status (header_value header)"
      "save_html (lib E) (output_dir C) url = Inr path"
      "level < depth C"
      "new_events s s' = pre @
             [Save_html path content, Extract_links url,
              Log_row \<lparr>row_url = url, row_status = Num status,
                      row_content_type = header_value header, row_saved_file = path\<rparr>,
              Visited_add url] @ post"
      "post = [] \<or> post = [Sleep (delay C)]" "\<not> isl r \<longrightarrow> post = [Sleep (delay C)]"
      "queue s' = rest @ new" "visited s' = insert url (visited s)"
  using q nv lv ok
proof (cases rule: crawl_step_shape [where E = E and st = st and sess = sess])
  case (other kind)
  have "isl r" "new_events s s' = pre" "queue s' = rest"
    by (simp_all add: r_def s'_def other(2) new_events_def pre_def)
  with other(1) show ?thesis by (rule that(1))
next
  case (error kind)
  let ?s0 = "s\<lparr>queue := rest, trace := trace s @ pre @
             [Log_row \<lparr>row_url = url, row_status = Str (''error:'' @ kind),
                      row_content_type = [], row_saved_file = []\<rparr>]\<rparr>"
  have r: "crawl_step E C st sess rp s = finish_target E C url ?s0"
    using error(2) by (simp add: pre_def)
  from new_events_finish [of ?s0 s _ E C url] obtain post where
    "new_events s s' = (pre @
             [Log_row \<lparr>row_url = url, row_status = Str (''error:'' @ kind),
                      row_content_type = [], row_saved_file = []\<rparr>]) @ Visited_add url # post"
    "post = [] \<or> post = [Sleep (delay C)]" "\<not> isl r \<longrightarrow> post = [Sleep (delay C)]"
    "queue s' = rest" "visited s' = insert url (visited s)"
    unfolding s'_def r_def r by auto
  then have "new_events s s' = pre @
             [Log_row \<lparr>row_url = url, row_status = Str (''error:'' @ kind),
                      row_content_type = [], row_saved_file = []\<rparr>, Visited_add url] @ post"
    "post = [] \<or> post = [Sleep (delay C)]" "\<not> isl r \<longrightarrow> post = [Sleep (delay C)]"
    "queue s' = rest" "visited s' = insert url (visited s)"
    by simp_all
  with error(1) show ?thesis by (rule that(2))
next
  case (plain status header content html)
  let ?s0 = "s\<lparr>queue := rest, trace := trace s @ pre @
             [Log_row \<lparr>row_url = url, row_status = Num status,
                      row_content_type = header_value header, row_saved_file = []\<rparr>]\<rparr>"
  have r: "crawl_step E C st sess rp s = finish_target E C url ?s0"
    using plain(3) by (simp add: pre_def)
  from new_events_finish [of ?s0 s _ E C url] obtain post where
    "new_events s s' = (pre @
             [Log_row \<lparr>row_url = url, row_status = Num status,
                      row_content_type = header_value header, row_saved_file = []\<rparr>]) @ Visited_add url # post"
    "post = [] \<or> post = [Sleep (delay C)]" "\<not> isl r \<longrightarrow> post = [Sleep (delay C)]"
    "queue s' = rest" "visited s' = insert url (visited s)"
    unfolding s'_def r_def r by auto
  then have "new_events s s' = pre @
             [Log_row \<lparr>row_url = url, row_status = Num status,
                      row_content_type = header_value header, row_saved_file = []\<rparr>,
              Visited_add url] @ post"
    "post = [] \<or> post = [Sleep (delay C)]" "\<not> isl r \<longrightarrow> post = [Sleep (delay C)]"
    "queue s' = rest" "visited s' = insert url (visited s)"
    by simp_all
  with plain(1,2) show ?thesis by (rule that(3))
next
  case (unsaved status header content html e)
  have "isl r" "new_events s s' = pre" "queue s' = rest"
    by (simp_all add: r_def s'_def unsaved(4) new_events_def pre_def)
  with unsaved(1,2,3) show ?thesis by (rule that(4))
next
  case (leaf status header content html path)
  let ?s0 = "s\<lparr>queue := rest, trace := trace s @ pre @
             [Save_html path content,
              Log_row \<lparr>row_url = url, row_status = Num status,
                      row_content_type = header_value header, row_saved_file = path\<rparr>]\<rparr>"
  have r: "crawl_step E C st sess rp s = finish_target E C url ?s0"
    using leaf(5) by (simp add: pre_def)
  from new_events_finish [of ?s0 s _ E C url] obtain post where
    "new_events s s' = (pre @
             [Save_html path content,
              Log_row \<lparr>row_url = url, row_status = Num status,
                      row_content_type = header_value header, row_saved_file = path\<rparr>]) @ Visited_add url # post"
    "post = [] \<or> post = [Sleep (delay C)]" "\<not> isl r \<longrightarrow> post = [Sleep (delay C)]"
    "queue s' = rest" "visited s' = insert url (visited s)"
    unfolding s'_def r_def r by auto
  then have "new_events s s' = pre @
             [Save_html path content,
              Log_row \<lparr>row_url = url, row_status = Num status,
                      row_content_type = header_value header, row_saved_file = path\<rparr>,
              Visited_add url] @ post"
    "post = [] \<or> post = [Sleep (delay C)]" "\<not> isl r \<longrightarrow> post = [Sleep (delay C)]"
    "queue s' = rest" "visited s' = insert url (visited s)"
    by simp_all
  with leaf(1,2,3,4) show ?thesis by (rule that(5))
next
  case (lost status header content html path e new)
  have "isl r" "new_events s s' = pre @ [Save_html path content, Extract_links url]"
    "queue s' = rest @ new"
    by (simp_all add: r_def s'_def lost(5) new_events_def pre_def)
  with lost(1,2,3,4) show ?thesis by (rule that(6))
next
  case (inner status header content html path new)
  let ?s0 = "s\<lparr>queue := rest @ new, trace := trace s @ pre @
             [Save_html path content, Extract_links url,
              Log_row \<lparr>row_url = url, row_status = Num status,
                      row_content_type = header_value header, row_saved_file = path\<rparr>]\<rparr>"
  have r: "crawl_step E C st sess rp s = finish_target E C url ?s0"
    using inner(5) by (simp add: pre_def)
  from new_events_finish [of ?s0 s _ E C url] obtain post where
    "new_events s s' = (pre @
             [Save_html path content, Extract_links url,
              Log_row \<lparr>row_url = url, row_status = Num status,
                      row_content_type = header_value header, row_saved_file = path\<rparr>]) @ Visited_add url # post"
    "post = [] \<or> post = [Sleep (delay C)]" "\<not> isl r \<longrightarrow> post = [Sleep (delay C)]"
    "queue s' = rest @ new" "visited s' = insert url (visited s)"
    unfolding s'_def r_def r by auto
  then have "new_events s s' = pre @
             [Save_html path content, Extract_links url,
              Log_row \<lparr>row_url = url, row_status = Num status,
                      row_content_type = header_value header, row_saved_file = path\<rparr>,
              Visited_add url] @ post"
    "post = [] \<or> post = [Sleep (delay C)]" "\<not> isl r \<longrightarrow> post = [Sleep (delay C)]"
    "queue s' = rest @ new" "visited s' = insert url (visited s)"
    by simp_all
  with inner(1,2,3,4) show ?thesis by (rule that(7))
qed

lemma admit_links_grows:
  assumes "admit_links L st lvl links s = Inr s'"
  shows "set (queue s) \<subseteq> set (queue s')" and "visited s' = visited s"
proof -
  from admit_links_effect [of L st lvl links s] assms obtain new where
    "s' = s\<lparr>queue := queue s @ new\<rparr>" by auto
  then show "set (queue s) \<subseteq> set (queue s')" and "visited s' = visited s" by auto
qed

lemma admit_links_complete:
  "admit_links L st lvl links s = Inr s' \<Longrightarrow> link \<in> set links \<Longrightarrow> link \<notin> visited s \<Longrightarrow>
   in_scope L st link \<Longrightarrow> (link, lvl + 1) \<in> set (queue s')"
proof (induction links arbitrary: s)
  case Nil
  then show ?case by simp
next
  case (Cons a links)
  show ?case
  proof (cases "a = link")
    case True
    with Cons.prems(3,4) have "admit_links L st lvl (a # links) s =
        admit_links L st lvl links (s\<lparr>queue := queue s @ [(link, lvl + 1)]\<rparr>)"
      by (auto simp: in_scope_def split: sum.splits)
    with Cons.prems(1) have "admit_links L st lvl links (s\<lparr>queue := queue s @ [(link, lvl + 1)]\<rparr>) = Inr s'"
      by simp
    from admit_links_grows(1) [OF this] show ?thesis by auto
  next
    case False
    with Cons.prems(2) have mem: "link \<in> set links" by simp
    from Cons.prems(1) obtain s1 where
      s1: "admit_links L st lvl links s1 = Inr s'" "visited s1 = visited s"
      by (auto split: if_splits sum.splits)
    from Cons.IH [OF s1(1) mem] s1(2) Cons.prems(3,4) show ?thesis by simp
  qed
qed

lemma self_link_requeued:
  fixes E :: env and C :: config and st :: string and sess :: session
    and rp :: "robot_parser option"
  assumes q: "queue s = (url, level) # rest" and nv: "url \<notin> visited s" and lv: "level < depth C"
    and ok: "respect_robots C \<longrightarrow> is_allowed rp (user_agent C) url"
    and resp: "http_get E sess url = Response status header content html"
    and h: "html_ok status (header_value header)"
    and links: "extract_links E url html = Inr links" "link \<in> set links"
    and sc: "link \<notin> visited s" "in_scope (lib E) st link"
    and r: "crawl_step E C st sess rp s = Inr s'"
  shows "(link, level + 1) \<in> set (queue s')"
proof -
  from lv have lv': "level \<le> depth C" by simp
  define s2 where "s2 = s\<lparr>queue := rest,
      trace := trace s @ (if respect_robots C then [Is_allowed url] else []) @ [Http_get url]\<rparr>"
  from crawl_step_unblocked [OF q nv lv' ok, of E st sess] resp r
  have hr: "(case handle_response E C st url level status (header_value header) content html s2 of
               Inl es \<Rightarrow> Inl es | Inr s3 \<Rightarrow> finish_target E C url s3) = Inr s'"
    by (simp add: s2_def header_value_def)
  then obtain s3 where
    s3: "handle_response E C st url level status (header_value header) content html s2 = Inr s3"
        "finish_target E C url s3 = Inr s'"
    by (auto split: sum.splits)
  from s3(2) have qs: "queue s' = queue s3"
    by (cases E C url s3 rule: finish_target_cases) auto
  from s3(1) h lv obtain path s4 where
    s4: "follow_links E st url level html (emit (Save_html path content) s2) = Inr s4"
        "s3 = log_to_csv url (Num status) (header_value header) path s4"
    by (auto simp: handle_response_def html_ok_def split: sum.splits)
  from s4(1) links(1) have
    "admit_links (lib E) st level links (emit (Extract_links url) (emit (Save_html path content) s2)) = Inr s4"
    by (simp add: follow_links_def)
  from admit_links_complete [OF this links(2) _ sc(2)] sc(1)
  have "(link, level + 1) \<in> set (queue s4)" by (simp add: s2_def)
  with qs s4(2) show ?thesis by simp
qed


section \<open>Properties of the audit log\<close>

text \<open>
  Claim C6. For every crawl run, no URL appears in more than one row of the audit log:
  each URL is processed (blocked, fetched or errored) at most once. This holds of every
  state of every run, whether the loop is still running, has finished or was ended by an
  exception.
\<close>

theorem audit_log_urls_distinct:
  "distinct (map row_url (audit_log (trace (state_of (crawl n E C start_url)))))"
proof -
  from crawl_safe_run [of E C n start_url] obtain st where
    "crawl_safe (lib E) C st (state_of (crawl n E C start_url))" by blast
  then show ?thesis by (simp add: crawl_safe_def)
qed

theorem audit_log_urls_distinct_witness:
  "map row_url (audit_log (trace (state_of (crawl 6 demo_env demo_config_10 ''http://example.com'')))) =
     [''http://example.com/'', ''http://example.com/secret'', ''http://example.com/a'',
      ''http://notexample.com/'', ''http://example.com/img.png''] \<and>
   distinct (map row_url (audit_log (trace (state_of
      (crawl 6 demo_env demo_config_10 ''http://example.com'')))))"
proof -
  have "map row_url (audit_log (trace (state_of (crawl 6 demo_env demo_config_10 ''http://example.com'')))) =
     [''http://example.com/'', ''http://example.com/secret'', ''http://example.com/a'',
      ''http://notexample.com/'', ''http://example.com/img.png'']"
    unfolding demo_run_10 by (simp add: state_of_def)
  with audit_log_urls_distinct [of 6 demo_env demo_config_10 "''http://example.com''"]
  show ?thesis by blast
qed

text \<open>
  Claim C2, as stated: the audit log of a run with page budget \<open>B\<close> has at most \<open>B\<close>
  rows, because robots-blocked targets count against the budget too. The code does not
  count them: the robots branch logs its row and continues without \<^verbatim>\<open>processed += 1\<close>.
  With budget 2 the run below finishes with three rows.
\<close>

theorem budget_bounds_all_rows_counterexample:
  "crawl 3 demo_env demo_config ''http://example.com'' =
     Finished (state_of (crawl 3 demo_env demo_config ''http://example.com'')) \<and>
   max_pages demo_config = 2 \<and>
   length (audit_log (trace (state_of (crawl 3 demo_env demo_config ''http://example.com'')))) = 3"
  unfolding demo_run_2 by (simp add: state_of_def demo_config_def)

text \<open>
  Claim C2, amended. For every crawl run with page budget \<open>B\<close>, the audit log holds at
  most \<open>B\<close> rows whose status is not \<^verbatim>\<open>robots_blocked\<close>: every target that is fetched or
  errored increments the processed count that the loop compares against \<open>B\<close>, and that
  count is the number of these rows. Robots-blocked rows are not counted.
\<close>

theorem budget_bounds_processed_rows:
  "processed (state_of (crawl n E C start_url)) =
     int (length (filter (\<lambda>r. \<not> robots_blocked r)
            (audit_log (trace (state_of (crawl n E C start_url)))))) \<and>
   int (length (filter (\<lambda>r. \<not> robots_blocked r)
          (audit_log (trace (state_of (crawl n E C start_url)))))) \<le> max 0 (max_pages C)"
proof -
  from crawl_safe_run [of E C n start_url] obtain st where
    "crawl_safe (lib E) C st (state_of (crawl n E C start_url))" by blast
  then show ?thesis by (simp add: crawl_safe_def)
qed

theorem budget_bounds_processed_rows_witness:
  "max_pages demo_config = 2 \<and>
   processed (state_of (crawl 3 demo_env demo_config ''http://example.com'')) = 2 \<and>
   int (length (filter (\<lambda>r. \<not> robots_blocked r)
          (audit_log (trace (state_of (crawl 3 demo_env demo_config ''http://example.com'')))))) = 2"
proof -
  have "processed (state_of (crawl 3 demo_env demo_config ''http://example.com'')) = 2"
    and "max_pages demo_config = 2"
    unfolding demo_run_2 by (simp_all add: state_of_def demo_config_def)
  with budget_bounds_processed_rows [of 3 demo_env demo_config "''http://example.com''"]
  show ?thesis by simp
qed

section \<open>Domain scoping\<close>

text \<open>
  Claim C1, as stated: a link is admitted only if its host is the seed's host or a
  dot-separated subdomain of it, and a cross-site link is never enqueued, fetched or
  logged. The code compares the lower-cased netlocs with \<^verbatim>\<open>endswith\<close>, without a dot:
  from the seed example.com the link to notexample.com is enqueued, fetched and logged.
\<close>

theorem cross_site_counterexample:
  "get_domain demo_lib ''http://example.com/'' = Inr ''example.com'' \<and>
   get_domain demo_lib ''http://notexample.com/'' = Inr ''notexample.com'' \<and>
   \<not> same_site_or_subdomain ''example.com'' ''notexample.com'' \<and>
   (''http://notexample.com/'', 1) \<in> set (queue (state_of
       (crawl 1 demo_env demo_config ''http://example.com''))) \<and>
   ''http://notexample.com/'' \<in> set (requests (trace (state_of
       (crawl 6 demo_env demo_config_10 ''http://example.com'')))) \<and>
   ''http://notexample.com/'' \<in> set (map row_url (audit_log (trace (state_of
       (crawl 6 demo_env demo_config_10 ''http://example.com'')))))"
  unfolding demo_run_1 demo_run_10
  by (simp add: demo_domains state_of_def same_site_or_subdomain_def suffix_def)

text \<open>
  Claim C1, amended. Every URL that is ever in the queue, requested or logged during a
  crawl is the normalized seed itself or a link whose lower-cased netloc ends, as a
  string, with the lower-cased netloc of the seed; a link whose netloc does not end with
  the seed's netloc is never enqueued, never fetched and never logged.
\<close>

theorem scope_is_netloc_suffix:
  assumes "normalize_url (lib E) start_url = Inr st"
      and "u \<in> fst ` set (queue (state_of (crawl n E C start_url))) \<union>
               set (requests (trace (state_of (crawl n E C start_url)))) \<union>
               set (map row_url (audit_log (trace (state_of (crawl n E C start_url)))))"
  shows "u = st \<or>
         (\<exists>d d0. get_domain (lib E) u = Inr d \<and> get_domain (lib E) st = Inr d0 \<and> suffix d0 d)"
proof -
  from crawl_safe_crawl [of E C n start_url] obtain st' where
    safe: "crawl_safe (lib E) C st' (state_of (crawl n E C start_url))"
    and st': "normalize_url (lib E) start_url = Inr st' \<or> state_of (crawl n E C start_url) = no_state"
    by blast
  from st' show ?thesis
  proof
    assume "normalize_url (lib E) start_url = Inr st'"
    with assms(1) have "st' = st" by simp
    with safe assms(2) have "u = st \<or> in_scope (lib E) st u"
      unfolding crawl_safe_def by blast
    then show ?thesis by (simp add: in_scope_iff)
  next
    assume "state_of (crawl n E C start_url) = no_state"
    with assms(2) show ?thesis by (simp add: no_state_def)
  qed
qed

theorem scope_is_netloc_suffix_witness:
  "normalize_url (lib demo_env) ''http://example.com'' = Inr ''http://example.com/'' \<and>
   ''http://notexample.com/'' \<in> set (requests (trace (state_of
       (crawl 6 demo_env demo_config_10 ''http://example.com'')))) \<and>
   get_domain (lib demo_env) ''http://notexample.com/'' = Inr ''notexample.com'' \<and>
   get_domain (lib demo_env) ''http://example.com/'' = Inr ''example.com'' \<and>
   suffix ''example.com'' ''notexample.com''"
proof -
  have a: "normalize_url (lib demo_env) ''http://example.com'' = Inr ''http://example.com/''"
    by (rule demo_normalize_seed)
  have c: "''http://notexample.com/'' \<in> set (requests (trace (state_of
       (crawl 6 demo_env demo_config_10 ''http://example.com''))))"
    unfolding demo_run_10 by (simp add: state_of_def)
  then have b: "''http://notexample.com/'' \<in>
       fst ` set (queue (state_of (crawl 6 demo_env demo_config_10 ''http://example.com''))) \<union>
       set (requests (trace (state_of (crawl 6 demo_env demo_config_10 ''http://example.com'')))) \<union>
       set (map row_url (audit_log (trace (state_of (crawl 6 demo_env demo_config_10 ''http://example.com'')))))"
    by blast
  have d: "get_domain (lib demo_env) ''http://notexample.com/'' = Inr ''notexample.com''"
       "get_domain (lib demo_env) ''http://example.com/'' = Inr ''example.com''"
    by (simp_all add: demo_domains)
  from scope_is_netloc_suffix [OF a b] d have "suffix ''example.com'' ''notexample.com''"
    by auto
  with a c d show ?thesis by simp
qed

section \<open>Network errors\<close>

lemma time_sleep_returns:
  "time_sleep E secs = None \<longleftrightarrow>
     (\<exists>r. secs = Finite r \<and> 0 \<le> r \<and> r * 10 ^ 9 < 2 ^ 63 - 512 \<and> pysleep E r)"
  by (cases secs) (auto simp add: time_sleep_def)

text \<open>
  Claim C9. When the fetch of a target raises a RequestException, that exception does
  not end the run: the iteration appends a row with status \<^verbatim>\<open>error:<class name>\<close> and
  empty content-type and saved-file fields, marks the target visited and counts it,
  whatever happens afterwards. Only the call \<^verbatim>\<open>time.sleep(delay)\<close> follows. When it
  returns (the delay is a number from 0 to below \<open>2\<^sup>6\<^sup>3 - 512\<close> nanoseconds and the
  operating system carries out the sleep: lemma \<open>time_sleep_returns\<close>), the iteration
  ends normally and the loop continues with the state so reached; when it raises, which
  it does after every kind of target alike, that exception ends the run, after the row.
  No URL is ever requested twice in a run.
\<close>

theorem fetch_error_is_logged_and_skipped:
  assumes q: "queue s = (url, level) # rest" and nv: "url \<notin> visited s" and lv: "level \<le> depth C"
    and ok: "respect_robots C \<longrightarrow> is_allowed rp (user_agent C) url"
    and err: "http_get E sess url = Raises_RequestException kind"
    and g: "processed s < max_pages C"
  shows "(\<exists>post. result_state (crawl_step E C st sess rp s) =
             \<lparr>visited = insert url (visited s), queue = rest, processed = processed s + 1,
              trace = trace s @ (if respect_robots C then [Is_allowed url] else []) @
                [Http_get url,
                 Log_row \<lparr>row_url = url, row_status = Str (''error:'' @ kind),
                          row_content_type = [], row_saved_file = []\<rparr>,
                 Visited_add url] @ post\<rparr> \<and>
             (post = [] \<or> post = [Sleep (delay C)])) \<and>
         (time_sleep E (delay C) = None \<longrightarrow>
            crawl_step E C st sess rp s =
              Inr \<lparr>visited = insert url (visited s), queue = rest, processed = processed s + 1,
                   trace = trace s @ (if respect_robots C then [Is_allowed url] else []) @
                     [Http_get url,
                      Log_row \<lparr>row_url = url, row_status = Str (''error:'' @ kind),
                               row_content_type = [], row_saved_file = []\<rparr>,
                      Visited_add url, Sleep (delay C)]\<rparr> \<and>
            crawl_loop (Suc n) E C st sess rp s =
              crawl_loop n E C st sess rp (result_state (crawl_step E C st sess rp s))) \<and>
         (\<forall>e. time_sleep E (delay C) = Some e \<longrightarrow>
            crawl_loop (Suc n) E C st sess rp s =
              Crashed e (result_state (crawl_step E C st sess rp s))) \<and>
         distinct (requests (trace (state_of (crawl m E C start_url))))"
proof -
  define row where "row = Log_row \<lparr>row_url = url, row_status = Str (''error:'' @ kind),
                       row_content_type = [], row_saved_file = []\<rparr>"
  define pre where "pre = (if respect_robots C then [Is_allowed url] else [])"
  define s2 where "s2 = s\<lparr>queue := rest, trace := trace s @ pre @ [Http_get url, row]\<rparr>"
  have step: "crawl_step E C st sess rp s = finish_target E C url s2"
    by (simp add: crawl_step_unblocked [OF q nv lv ok] err log_to_csv_def emit_def
        s2_def pre_def row_def)
  have cond: "queue s \<noteq> [] \<and> processed s < max_pages C"
    using q g by simp
  have requests: "distinct (requests (trace (state_of (crawl m E C start_url))))"
  proof -
    from crawl_safe_crawl [of E C m start_url] obtain st' where
      "crawl_safe (lib E) C st' (state_of (crawl m E C start_url))" by blast
    then show ?thesis by (simp add: crawl_safe_def)
  qed
  have goal: "(\<exists>post. result_state (crawl_step E C st sess rp s) =
             \<lparr>visited = insert url (visited s), queue = rest, processed = processed s + 1,
              trace = trace s @ pre @ [Http_get url, row, Visited_add url] @ post\<rparr> \<and>
             (post = [] \<or> post = [Sleep (delay C)])) \<and>
         (time_sleep E (delay C) = None \<longrightarrow>
            crawl_step E C st sess rp s =
              Inr \<lparr>visited = insert url (visited s), queue = rest, processed = processed s + 1,
                   trace = trace s @ pre @ [Http_get url, row, Visited_add url, Sleep (delay C)]\<rparr> \<and>
            crawl_loop (Suc n) E C st sess rp s =
              crawl_loop n E C st sess rp (result_state (crawl_step E C st sess rp s))) \<and>
         (\<forall>e. time_sleep E (delay C) = Some e \<longrightarrow>
            crawl_loop (Suc n) E C st sess rp s =
              Crashed e (result_state (crawl_step E C st sess rp s)))"
  proof (cases E C url s2 rule: finish_target_cases)
    case (crash e)
    have state: "\<exists>post. result_state (crawl_step E C st sess rp s) =
             \<lparr>visited = insert url (visited s), queue = rest, processed = processed s + 1,
              trace = trace s @ pre @ [Http_get url, row, Visited_add url] @ post\<rparr> \<and>
             (post = [] \<or> post = [Sleep (delay C)])"
      by (rule exI [of _ "[]"]) (simp add: step crash(2), simp add: s2_def)
    have loop: "crawl_loop (Suc n) E C st sess rp s =
        Crashed e (result_state (crawl_step E C st sess rp s))"
      using cond by (simp add: step crash(2))
    from state loop crash(1) show ?thesis by simp
  next
    case slept
    have state: "\<exists>post. result_state (crawl_step E C st sess rp s) =
             \<lparr>visited = insert url (visited s), queue = rest, processed = processed s + 1,
              trace = trace s @ pre @ [Http_get url, row, Visited_add url] @ post\<rparr> \<and>
             (post = [] \<or> post = [Sleep (delay C)])"
      by (rule exI [of _ "[Sleep (delay C)]"]) (simp add: step slept(2), simp add: s2_def)
    have ret: "crawl_step E C st sess rp s =
              Inr \<lparr>visited = insert url (visited s), queue = rest, processed = processed s + 1,
                   trace = trace s @ pre @ [Http_get url, row, Visited_add url, Sleep (delay C)]\<rparr>"
      by (simp add: step slept(2), simp add: s2_def)
    have loop: "crawl_loop (Suc n) E C st sess rp s =
              crawl_loop n E C st sess rp (result_state (crawl_step E C st sess rp s))"
      using cond by (simp add: ret)
    from state ret loop slept(1) show ?thesis by simp
  qed
  from goal requests show ?thesis
    unfolding pre_def row_def by simp
qed

theorem fetch_error_is_logged_and_skipped_witness:
  "time_sleep demo_env (delay demo_config) = None \<and>
   crawl_step demo_env demo_config ''http://example.com/'' demo_session (Some demo_robots)
       (init_state ''http://example.com/a'') =
     Inr \<lparr>visited = {''http://example.com/a''}, queue = [], processed = 1,
          trace = [Is_allowed ''http://example.com/a'', Http_get ''http://example.com/a'',
                   Log_row \<lparr>row_url = ''http://example.com/a'', row_status = Str ''error:Timeout'',
                            row_content_type = [], row_saved_file = []\<rparr>,
                   Visited_add ''http://example.com/a'', Sleep (Finite 2)]\<rparr> \<and>
   distinct (requests (trace (state_of (crawl 6 demo_env demo_config_10 ''http://example.com''))))"
proof -
  let ?s = "init_state ''http://example.com/a''"
  have q: "queue ?s = (''http://example.com/a'', 0) # []" by (simp add: init_state_def)
  have nv: "''http://example.com/a'' \<notin> visited ?s" by (simp add: init_state_def)
  have lv: "0 \<le> depth demo_config" by (simp add: demo_config_def)
  have ok: "respect_robots demo_config \<longrightarrow>
      is_allowed (Some demo_robots) (user_agent demo_config) ''http://example.com/a''"
    by (simp add: is_allowed_def demo_robots_def)
  have err: "http_get demo_env demo_session ''http://example.com/a'' = Raises_RequestException ''Timeout''"
    by (simp add: demo_env_def demo_get_def)
  have d: "time_sleep demo_env (delay demo_config) = None"
    by (simp add: time_sleep_def demo_env_def demo_config_def)
  have g: "processed ?s < max_pages demo_config" by (simp add: init_state_def demo_config_def)
  from fetch_error_is_logged_and_skipped [OF q nv lv ok err g,
      of "''http://example.com/''" 0 6 "''http://example.com''"] d
  show ?thesis
    unfolding demo_run_10 by (simp add: init_state_def demo_config_def state_of_def)
qed

section \<open>One iteration on the small world\<close>

lemma demo_step_seed:
  "crawl_step demo_env demo_config ''http://example.com/'' demo_session (Some demo_robots)
       (demo_state ''http://example.com/'' 0) =
   Inr \<lparr>visited = {''http://example.com/''},
     queue = [(''http://example.com/secret'', 1), (''http://example.com/a'', 1),
              (''http://notexample.com/'', 1), (''http://example.com/'', 1),
              (''http://example.com/img.png'', 1)],
     processed = 1,
     trace =
       [Is_allowed ''http://example.com/'',
        Http_get ''http://example.com/'',
        Save_html ''tor_output/example.com_index.html'' ''<a href=...>'',
        Extract_links ''http://example.com/'',
        Log_row \<lparr>row_url = ''http://example.com/'', row_status = Num 200,
            row_content_type = ''Text/HTML; charset=utf-8'',
            row_saved_file = ''tor_output/example.com_index.html''\<rparr>,
        Visited_add ''http://example.com/'', Sleep (Finite 2)]\<rparr>"
  by code_simp

lemma demo_step_leaf:
  "crawl_step demo_env demo_config ''http://example.com/'' demo_session (Some demo_robots)
       (demo_state ''http://example.com/'' 1) =
   Inr \<lparr>visited = {''http://example.com/''}, queue = [], processed = 1,
     trace =
       [Is_allowed ''http://example.com/'',
        Http_get ''http://example.com/'',
        Save_html ''tor_output/example.com_index.html'' ''<a href=...>'',
        Log_row \<lparr>row_url = ''http://example.com/'', row_status = Num 200,
            row_content_type = ''Text/HTML; charset=utf-8'',
            row_saved_file = ''tor_output/example.com_index.html''\<rparr>,
        Visited_add ''http://example.com/'', Sleep (Finite 2)]\<rparr>"
  by code_simp

lemma demo_step_deep:
  "crawl_step demo_env demo_config ''http://example.com/'' demo_session (Some demo_robots)
       (demo_state ''http://example.com/'' 2) =
   Inr \<lparr>visited = {}, queue = [], processed = 0, trace = []\<rparr>"
  by code_simp

lemma demo_step_image:
  "crawl_step demo_env demo_config ''http://example.com/'' demo_session (Some demo_robots)
       (demo_state ''http://example.com/img.png'' 1) =
   Inr \<lparr>visited = {''http://example.com/img.png''}, queue = [], processed = 1,
     trace =
       [Is_allowed ''http://example.com/img.png'',
        Http_get ''http://example.com/img.png'',
        Log_row \<lparr>row_url = ''http://example.com/img.png'', row_status = Num 200,
            row_content_type = ''image/png'', row_saved_file = []\<rparr>,
        Visited_add ''http://example.com/img.png'', Sleep (Finite 2)]\<rparr>"
  by code_simp

lemma demo_step_secret:
  "crawl_step demo_env demo_config ''http://example.com/'' demo_session (Some demo_robots)
       (demo_state ''http://example.com/secret'' 1) =
   Inr \<lparr>visited = {''http://example.com/secret''}, queue = [], processed = 0,
     trace =
       [Is_allowed ''http://example.com/secret'',
        Log_row \<lparr>row_url = ''http://example.com/secret'', row_status = Str ''robots_blocked'',
            row_content_type = [], row_saved_file = []\<rparr>,
        Visited_add ''http://example.com/secret'']\<rparr>"
  by code_simp

lemma demo_facts:
  "is_allowed (Some demo_robots) (user_agent demo_config) ''http://example.com/''"
  "is_allowed (Some demo_robots) (user_agent demo_config) ''http://example.com/img.png''"
  "\<not> is_allowed (Some demo_robots) (user_agent demo_config) ''http://example.com/secret''"
  "http_get demo_env demo_session ''http://example.com/'' =
     Response 200 (Some ''Text/HTML; charset=utf-8'') demo_page demo_page"
  "http_get demo_env demo_session ''http://example.com/img.png'' =
     Response 200 (Some ''image/png'') ''png'' ''png''"
  "depth demo_config = 1" "respect_robots demo_config" "delay demo_config = Finite 2"
  by (simp_all add: is_allowed_def demo_robots_def demo_env_def demo_get_def demo_config_def)

lemma demo_html_ok:
  "contains ''text/html'' (lower (header_value (Some ''Text/HTML; charset=utf-8'')))"
  "\<not> contains ''text/html'' (lower (header_value (Some ''image/png'')))"
  by code_simp+

lemma demo_save_paths:
  "save_html (lib demo_env) (output_dir demo_config) ''http://example.com/'' =
     Inr ''tor_output/example.com_index.html''"
  "save_html (lib demo_env) (output_dir demo_config) ''http://example.com/img.png'' =
     Inr ''tor_output/example.com_img.png.html''"
  by code_simp+

lemma demo_links:
  "extract_links demo_env ''http://example.com/'' demo_page =
     Inr [''http://example.com/secret'', ''http://example.com/a'', ''http://other.com/b'',
          ''http://notexample.com/'', ''http://example.com/'', ''http://example.com/img.png'']"
  "in_scope (lib demo_env) ''http://example.com/'' ''http://example.com/''"
  by code_simp+

lemma demo_state_simps [simp]:
  "queue (demo_state url level) = [(url, level)]" "visited (demo_state url level) = {}"
  "processed (demo_state url level) = 0" "trace (demo_state url level) = []"
  by (simp_all add: demo_state_def)

section \<open>Depth limit\<close>

text \<open>
  Claim C7. A target whose depth exceeds the configured maximum is discarded silently: the
  iteration only removes it from the queue, with no request and no audit row. A target
  whose depth equals the maximum (not yet visited, not blocked by robots.txt) is
  requested, and its body is saved when the response is a 200 with an HTML content type,
  but no links are extracted and the queue gains no entry.
\<close>

theorem max_depth_target_is_fetched_not_expanded:
  fixes E :: env and C :: config and st :: string and sess :: session
    and rp :: "robot_parser option"
  assumes q: "queue s = (url, level) # rest"
  defines "s' \<equiv> result_state (crawl_step E C st sess rp s)"
  shows "(depth C < level \<longrightarrow> crawl_step E C st sess rp s = Inr (s\<lparr>queue := rest\<rparr>)) \<and>
         (level = depth C \<and> url \<notin> visited s \<and>
          (respect_robots C \<longrightarrow> is_allowed rp (user_agent C) url) \<longrightarrow>
            Http_get url \<in> set (new_events s s') \<and>
            queue s' = rest \<and>
            (\<forall>u. Extract_links u \<notin> set (new_events s s')) \<and>
            (\<forall>status header content html path.
               http_get E sess url = Response status header content html \<and>
               html_ok status (header_value header) \<and>
               save_html (lib E) (output_dir C) url = Inr path \<longrightarrow>
               Save_html path content \<in> set (new_events s s')))"
proof (intro conjI impI)
  assume "depth C < level"
  with q show "crawl_step E C st sess rp s = Inr (s\<lparr>queue := rest\<rparr>)"
    by (simp add: crawl_step_skip)
next
  assume a: "level = depth C \<and> url \<notin> visited s \<and>
          (respect_robots C \<longrightarrow> is_allowed rp (user_agent C) url)"
  then have nv: "url \<notin> visited s" and lv: "level \<le> depth C"
    and ok: "respect_robots C \<longrightarrow> is_allowed rp (user_agent C) url" and eq: "level = depth C"
    by auto
  define pre where "pre = (if respect_robots C then [Is_allowed url] else []) @ [Http_get url]"
  have all: "Http_get url \<in> set (new_events s s') \<and>
            queue s' = rest \<and>
            (\<forall>u. Extract_links u \<notin> set (new_events s s')) \<and>
            (\<forall>status header content html path.
               http_get E sess url = Response status header content html \<and>
               html_ok status (header_value header) \<and>
               save_html (lib E) (output_dir C) url = Inr path \<longrightarrow>
               Save_html path content \<in> set (new_events s s'))"
    using q nv lv ok
  proof (cases rule: crawl_step_shape [where E = E and st = st and sess = sess])
    case (other kind)
    then show ?thesis by (auto simp: s'_def new_events_def)
  next
    case (error kind)
    from new_events_finish [of "s\<lparr>queue := rest, trace := trace s @ (if respect_robots C then [Is_allowed url] else []) @ [Http_get url] @
             [Log_row \<lparr>row_url = url, row_status = Str (''error:'' @ kind),
                      row_content_type = [], row_saved_file = []\<rparr>]\<rparr>" s _ E C url]
    obtain post where "new_events s s' = ((if respect_robots C then [Is_allowed url] else []) @ [Http_get url] @
             [Log_row \<lparr>row_url = url, row_status = Str (''error:'' @ kind),
                      row_content_type = [], row_saved_file = []\<rparr>]) @ Visited_add url # post"
      "post = [] \<or> post = [Sleep (delay C)]" "queue s' = rest"
      unfolding s'_def error by auto
    with error(1) show ?thesis by auto
  next
    case (plain status header content html)
    from new_events_finish [of "s\<lparr>queue := rest, trace := trace s @ (if respect_robots C then [Is_allowed url] else []) @ [Http_get url] @
             [Log_row \<lparr>row_url = url, row_status = Num status,
                      row_content_type = header_value header, row_saved_file = []\<rparr>]\<rparr>" s _ E C url]
    obtain post where "new_events s s' = ((if respect_robots C then [Is_allowed url] else []) @ [Http_get url] @
             [Log_row \<lparr>row_url = url, row_status = Num status,
                      row_content_type = header_value header, row_saved_file = []\<rparr>]) @ Visited_add url # post"
      "post = [] \<or> post = [Sleep (delay C)]" "queue s' = rest"
      unfolding s'_def plain by auto
    with plain(1,2) show ?thesis by auto
  next
    case (unsaved status header content html e)
    then show ?thesis by (auto simp: s'_def new_events_def)
  next
    case (leaf status header content html path)
    from new_events_finish [of "s\<lparr>queue := rest, trace := trace s @ (if respect_robots C then [Is_allowed url] else []) @ [Http_get url] @
             [Save_html path content,
              Log_row \<lparr>row_url = url, row_status = Num status,
                      row_content_type = header_value header, row_saved_file = path\<rparr>]\<rparr>" s _ E C url]
    obtain post where "new_events s s' = ((if respect_robots C then [Is_allowed url] else []) @ [Http_get url] @
             [Save_html path content,
              Log_row \<lparr>row_url = url, row_status = Num status,
                      row_content_type = header_value header, row_saved_file = path\<rparr>]) @ Visited_add url # post"
      "post = [] \<or> post = [Sleep (delay C)]" "queue s' = rest"
      unfolding s'_def leaf by auto
    with leaf(1,2,3) show ?thesis by auto
  next
    case (lost status header content html path e new)
    with eq show ?thesis by simp
  next
    case (inner status header content html path new)
    with eq show ?thesis by simp
  qed
  from all show "Http_get url \<in> set (new_events s s')" by blast
  from all show "queue s' = rest" by blast
  from all show "\<forall>u. Extract_links u \<notin> set (new_events s s')" by blast
  from all show "\<forall>status header content html path.
               http_get E sess url = Response status header content html \<and>
               html_ok status (header_value header) \<and>
               save_html (lib E) (output_dir C) url = Inr path \<longrightarrow>
               Save_html path content \<in> set (new_events s s')" by blast
qed


theorem max_depth_target_is_fetched_not_expanded_witness:
  "crawl_step demo_env demo_config ''http://example.com/'' demo_session (Some demo_robots)
       (demo_state ''http://example.com/'' 2) =
     Inr ((demo_state ''http://example.com/'' 2)\<lparr>queue := []\<rparr>) \<and>
   Http_get ''http://example.com/'' \<in> set (new_events (demo_state ''http://example.com/'' 1)
     (result_state (crawl_step demo_env demo_config ''http://example.com/'' demo_session
        (Some demo_robots) (demo_state ''http://example.com/'' 1)))) \<and>
   Save_html ''tor_output/example.com_index.html'' demo_page \<in>
     set (new_events (demo_state ''http://example.com/'' 1)
       (result_state (crawl_step demo_env demo_config ''http://example.com/'' demo_session
          (Some demo_robots) (demo_state ''http://example.com/'' 1)))) \<and>
   queue (result_state (crawl_step demo_env demo_config ''http://example.com/'' demo_session
      (Some demo_robots) (demo_state ''http://example.com/'' 1))) = []"
proof -
  let ?u = "''http://example.com/''"
  have q2: "queue (demo_state ?u 2) = (?u, 2) # []" and q1: "queue (demo_state ?u 1) = (?u, 1) # []"
    by simp_all
  have deep: "depth demo_config < 2" by (simp add: demo_facts)
  have leaf: "1 = depth demo_config \<and> ?u \<notin> visited (demo_state ?u 1) \<and>
      (respect_robots demo_config \<longrightarrow> is_allowed (Some demo_robots) (user_agent demo_config) ?u)"
    by (simp add: demo_facts)
  have page: "http_get demo_env demo_session ?u =
        Response 200 (Some ''Text/HTML; charset=utf-8'') demo_page demo_page \<and>
      html_ok 200 (header_value (Some ''Text/HTML; charset=utf-8'')) \<and>
      save_html (lib demo_env) (output_dir demo_config) ?u = Inr ''tor_output/example.com_index.html''"
    by (simp add: demo_facts html_ok_def demo_html_ok demo_save_paths del: demo_lib_env)
  note deep_case = max_depth_target_is_fetched_not_expanded
      [where E = demo_env and C = demo_config and st = ?u and sess = demo_session
         and rp = "Some demo_robots", OF q2]
  note leaf_case = max_depth_target_is_fetched_not_expanded
      [where E = demo_env and C = demo_config and st = ?u and sess = demo_session
         and rp = "Some demo_robots", OF q1]
  from deep_case deep have
    "crawl_step demo_env demo_config ?u demo_session (Some demo_robots) (demo_state ?u 2) =
       Inr ((demo_state ?u 2)\<lparr>queue := []\<rparr>)"
    by blast
  moreover from leaf_case leaf page show ?thesis
    using calculation by blast
qed

section \<open>Classification of the response\<close>

text \<open>
  Claim C8. For a response that \<^verbatim>\<open>session.get\<close> returns (on a target that is not
  discarded and not blocked, and whose URL the storage step can parse): the body is saved
  if and only if the status is exactly 200 and the lower-cased Content-Type contains
  \<^verbatim>\<open>text/html\<close>; links are extracted if and only if that holds and the depth is below
  the maximum; in that case the row carries the saved path; in every other case the row
  carries the status, the content type and an empty saved-file field, nothing is saved,
  no link is extracted and the queue gains no entry.
\<close>

theorem html_200_is_saved_and_expanded:
  fixes E :: env and C :: config and st :: string and sess :: session
    and rp :: "robot_parser option"
  assumes q: "queue s = (url, level) # rest" and nv: "url \<notin> visited s" and lv: "level \<le> depth C"
    and ok: "respect_robots C \<longrightarrow> is_allowed rp (user_agent C) url"
    and resp: "http_get E sess url = Response status header content html"
    and sv: "save_html (lib E) (output_dir C) url = Inr path"
  defines "s' \<equiv> result_state (crawl_step E C st sess rp s)"
  shows "((\<exists>p c. Save_html p c \<in> set (new_events s s')) \<longleftrightarrow>
            status = 200 \<and> contains ''text/html'' (lower (header_value header))) \<and>
         ((\<exists>u. Extract_links u \<in> set (new_events s s')) \<longleftrightarrow>
            status = 200 \<and> contains ''text/html'' (lower (header_value header)) \<and> level < depth C) \<and>
         (status = 200 \<and> contains ''text/html'' (lower (header_value header)) \<longrightarrow>
            Save_html path content \<in> set (new_events s s') \<and>
            (\<not> isl (crawl_step E C st sess rp s) \<longrightarrow>
               audit_log (new_events s s') =
                 [\<lparr>row_url = url, row_status = Num status,
                   row_content_type = header_value header, row_saved_file = path\<rparr>])) \<and>
         (\<not> (status = 200 \<and> contains ''text/html'' (lower (header_value header))) \<longrightarrow>
            audit_log (new_events s s') =
              [\<lparr>row_url = url, row_status = Num status,
                row_content_type = header_value header, row_saved_file = []\<rparr>] \<and>
            queue s' = rest)"
  using q nv lv ok
proof (cases rule: crawl_step_events [where E = E and st = st and sess = sess])
  case (other kind)
  with resp show ?thesis by simp
next
  case (error kind post)
  with resp show ?thesis by simp
next
  case (plain status' header' content' html' post)
  with resp have e: "status' = status" "header' = header" by simp_all
  from plain(4) have post: "audit_log post = []" "\<forall>p c. Save_html p c \<notin> set post"
    "\<forall>u. Extract_links u \<notin> set post" by auto
  from plain(2,3,6) post show ?thesis
    unfolding s'_def e by (auto simp: html_ok_def)
next
  case (unsaved status' header' content' html' e)
  with sv show ?thesis by simp
next
  case (leaf status' header' content' html' path' post)
  with resp sv have e: "status' = status" "header' = header" "content' = content" "path' = path"
    by simp_all
  from leaf(6) have post: "audit_log post = []" "\<forall>p c. Save_html p c \<notin> set post"
    "\<forall>u. Extract_links u \<notin> set post" by auto
  from leaf(2,4,5) post show ?thesis
    unfolding s'_def e by (auto simp: html_ok_def)
next
  case (lost status' header' content' html' path' new)
  with resp sv have e: "status' = status" "header' = header" "content' = content" "path' = path"
    by simp_all
  from lost(2,4,5,6) show ?thesis
    unfolding s'_def e by (auto simp: html_ok_def)
next
  case (inner status' header' content' html' path' new post)
  with resp sv have e: "status' = status" "header' = header" "content' = content" "path' = path"
    by simp_all
  from inner(6) have post: "audit_log post = []" "\<forall>p c. Save_html p c \<notin> set post"
    "\<forall>u. Extract_links u \<notin> set post" by auto
  from inner(2,4,5) post show ?thesis
    unfolding s'_def e by (auto simp: html_ok_def)
qed


theorem html_200_is_saved_and_expanded_witness:
  "Save_html ''tor_output/example.com_index.html'' demo_page \<in>
     set (new_events (demo_state ''http://example.com/'' 0)
       (result_state (crawl_step demo_env demo_config ''http://example.com/'' demo_session
          (Some demo_robots) (demo_state ''http://example.com/'' 0)))) \<and>
   audit_log (new_events (demo_state ''http://example.com/'' 0)
       (result_state (crawl_step demo_env demo_config ''http://example.com/'' demo_session
          (Some demo_robots) (demo_state ''http://example.com/'' 0)))) =
     [\<lparr>row_url = ''http://example.com/'', row_status = Num 200,
       row_content_type = ''Text/HTML; charset=utf-8'',
       row_saved_file = ''tor_output/example.com_index.html''\<rparr>] \<and>
   audit_log (new_events (demo_state ''http://example.com/img.png'' 1)
       (result_state (crawl_step demo_env demo_config ''http://example.com/'' demo_session
          (Some demo_robots) (demo_state ''http://example.com/img.png'' 1)))) =
     [\<lparr>row_url = ''http://example.com/img.png'', row_status = Num 200,
       row_content_type = ''image/png'', row_saved_file = []\<rparr>] \<and>
   queue (result_state (crawl_step demo_env demo_config ''http://example.com/'' demo_session
      (Some demo_robots) (demo_state ''http://example.com/img.png'' 1))) = []"
proof -
  let ?u = "''http://example.com/''" and ?i = "''http://example.com/img.png''"
  have qu: "queue (demo_state ?u 0) = (?u, 0) # []" and qi: "queue (demo_state ?i 1) = (?i, 1) # []"
    by simp_all
  have nvu: "?u \<notin> visited (demo_state ?u 0)" and nvi: "?i \<notin> visited (demo_state ?i 1)"
    by simp_all
  have lvu: "0 \<le> depth demo_config" and lvi: "1 \<le> depth demo_config"
    by (simp_all add: demo_facts)
  have oku: "respect_robots demo_config \<longrightarrow> is_allowed (Some demo_robots) (user_agent demo_config) ?u"
    and oki: "respect_robots demo_config \<longrightarrow> is_allowed (Some demo_robots) (user_agent demo_config) ?i"
    by (simp_all add: demo_facts)
  have html: "(200::int) = 200 \<and> contains ''text/html'' (lower (header_value (Some ''Text/HTML; charset=utf-8'')))"
    and image: "\<not> ((200::int) = 200 \<and> contains ''text/html'' (lower (header_value (Some ''image/png''))))"
    by (simp_all add: demo_html_ok)
  have finished: "\<not> isl (crawl_step demo_env demo_config ?u demo_session (Some demo_robots) (demo_state ?u 0))"
    by (simp add: demo_step_seed)
  note page = html_200_is_saved_and_expanded
      [where E = demo_env and C = demo_config and st = ?u and sess = demo_session
         and rp = "Some demo_robots", OF qu nvu lvu oku demo_facts(4) demo_save_paths(1)]
  note img = html_200_is_saved_and_expanded
      [where E = demo_env and C = demo_config and st = ?u and sess = demo_session
         and rp = "Some demo_robots", OF qi nvi lvi oki demo_facts(5) demo_save_paths(2)]
  from page html finished have
    "Save_html ''tor_output/example.com_index.html'' demo_page \<in>
       set (new_events (demo_state ?u 0)
         (result_state (crawl_step demo_env demo_config ?u demo_session (Some demo_robots) (demo_state ?u 0)))) \<and>
     audit_log (new_events (demo_state ?u 0)
         (result_state (crawl_step demo_env demo_config ?u demo_session (Some demo_robots) (demo_state ?u 0)))) =
       [\<lparr>row_url = ?u, row_status = Num 200,
         row_content_type = header_value (Some ''Text/HTML; charset=utf-8''),
         row_saved_file = ''tor_output/example.com_index.html''\<rparr>]"
    by blast
  moreover from img image have
    "audit_log (new_events (demo_state ?i 1)
         (result_state (crawl_step demo_env demo_config ?u demo_session (Some demo_robots) (demo_state ?i 1)))) =
       [\<lparr>row_url = ?i, row_status = Num 200,
         row_content_type = header_value (Some ''image/png''), row_saved_file = []\<rparr>] \<and>
     queue (result_state (crawl_step demo_env demo_config ?u demo_session (Some demo_robots) (demo_state ?i 1))) = []"
    by blast
  ultimately show ?thesis by (simp add: header_value_def)
qed

section \<open>Politeness delay\<close>

text \<open>
  Claim C4, as stated: the loop sleeps after every processed target, the robots-blocked
  ones included. The robots branch ends with \<^verbatim>\<open>continue\<close> before the loop reaches
  \<^verbatim>\<open>time.sleep(delay)\<close>: the iteration on a blocked target consults robots.txt, logs
  the row, marks the URL visited, and does not sleep.
\<close>

theorem sleep_after_blocked_counterexample:
  "\<not> is_allowed (Some demo_robots) (user_agent demo_config) ''http://example.com/secret'' \<and>
   crawl_step demo_env demo_config ''http://example.com/'' demo_session (Some demo_robots)
       (demo_state ''http://example.com/secret'' 1) =
     Inr \<lparr>visited = {''http://example.com/secret''}, queue = [], processed = 0,
       trace =
         [Is_allowed ''http://example.com/secret'',
          Log_row \<lparr>row_url = ''http://example.com/secret'', row_status = Str ''robots_blocked'',
              row_content_type = [], row_saved_file = []\<rparr>,
          Visited_add ''http://example.com/secret'']\<rparr> \<and>
   Sleep (delay demo_config) \<notin> set (trace (result_state
     (crawl_step demo_env demo_config ''http://example.com/'' demo_session (Some demo_robots)
        (demo_state ''http://example.com/secret'' 1))))"
  unfolding demo_step_secret by (simp add: demo_facts)

text \<open>
  Claim C4, amended. After every target that is fetched or errored (every iteration that
  reaches the end of the loop body) the loop sleeps the configured delay, as its last
  action before the next dequeue and only then. On the robots-blocked path, where no
  request was sent, the iteration ends without sleeping.
\<close>

theorem sleep_follows_fetch_not_block:
  fixes E :: env and C :: config and st :: string and sess :: session
    and rp :: "robot_parser option"
  assumes q: "queue s = (url, level) # rest" and nv: "url \<notin> visited s" and lv: "level \<le> depth C"
  defines "r \<equiv> crawl_step E C st sess rp s"
  shows "(respect_robots C \<and> \<not> is_allowed rp (user_agent C) url \<longrightarrow>
            \<not> isl r \<and>
            new_events s (result_state r) =
              [Is_allowed url,
               Log_row \<lparr>row_url = url, row_status = Str ''robots_blocked'', row_content_type = [],
                        row_saved_file = []\<rparr>,
               Visited_add url]) \<and>
         ((respect_robots C \<longrightarrow> is_allowed rp (user_agent C) url) \<and> \<not> isl r \<longrightarrow>
            (\<exists>evs. new_events s (result_state r) = evs @ [Visited_add url, Sleep (delay C)] \<and>
                   (\<forall>d. Sleep d \<notin> set evs)))"
proof (intro conjI impI)
  assume b: "respect_robots C \<and> \<not> is_allowed rp (user_agent C) url"
  with crawl_step_blocked [OF q nv lv, of rp E st sess]
  show "\<not> isl r" and "new_events s (result_state r) =
              [Is_allowed url,
               Log_row \<lparr>row_url = url, row_status = Str ''robots_blocked'', row_content_type = [],
                        row_saved_file = []\<rparr>,
               Visited_add url]"
    by (simp_all add: r_def new_events_def)
next
  assume a: "(respect_robots C \<longrightarrow> is_allowed rp (user_agent C) url) \<and> \<not> isl r"
  then have ok: "respect_robots C \<longrightarrow> is_allowed rp (user_agent C) url" and nl: "\<not> isl r"
    by auto
  from q nv lv ok show "\<exists>evs. new_events s (result_state r) = evs @ [Visited_add url, Sleep (delay C)] \<and>
                   (\<forall>d. Sleep d \<notin> set evs)"
  proof (cases rule: crawl_step_events [where E = E and st = st and sess = sess])
    case (other kind)
    with nl show ?thesis by (simp add: r_def)
  next
    case (error kind post)
    with nl have "post = [Sleep (delay C)]" by (simp add: r_def)
    with error(2) show ?thesis
      unfolding r_def
      by (intro exI [of _ "(if respect_robots C then [Is_allowed url] else []) @ [Http_get url] @
             [Log_row \<lparr>row_url = url, row_status = Str (''error:'' @ kind),
                      row_content_type = [], row_saved_file = []\<rparr>]"]) simp
  next
    case (plain status header content html post)
    with nl have "post = [Sleep (delay C)]" by (simp add: r_def)
    with plain(3) show ?thesis
      unfolding r_def
      by (intro exI [of _ "(if respect_robots C then [Is_allowed url] else []) @ [Http_get url] @
             [Log_row \<lparr>row_url = url, row_status = Num status,
                      row_content_type = header_value header, row_saved_file = []\<rparr>]"]) simp
  next
    case (unsaved status header content html e)
    with nl show ?thesis by (simp add: r_def)
  next
    case (leaf status header content html path post)
    with nl have "post = [Sleep (delay C)]" by (simp add: r_def)
    with leaf(5) show ?thesis
      unfolding r_def
      by (intro exI [of _ "(if respect_robots C then [Is_allowed url] else []) @ [Http_get url] @
             [Save_html path content,
              Log_row \<lparr>row_url = url, row_status = Num status,
                      row_content_type = header_value header, row_saved_file = path\<rparr>]"]) simp
  next
    case (lost status header content html path new)
    with nl show ?thesis by (simp add: r_def)
  next
    case (inner status header content html path new post)
    with nl have "post = [Sleep (delay C)]" by (simp add: r_def)
    with inner(5) show ?thesis
      unfolding r_def
      by (intro exI [of _ "(if respect_robots C then [Is_allowed url] else []) @ [Http_get url] @
             [Save_html path content, Extract_links url,
              Log_row \<lparr>row_url = url, row_status = Num status,
                      row_content_type = header_value header, row_saved_file = path\<rparr>]"]) simp
  qed
qed


theorem sleep_follows_fetch_not_block_witness:
  "new_events (demo_state ''http://example.com/secret'' 1)
     (result_state (crawl_step demo_env demo_config ''http://example.com/'' demo_session
        (Some demo_robots) (demo_state ''http://example.com/secret'' 1))) =
     [Is_allowed ''http://example.com/secret'',
      Log_row \<lparr>row_url = ''http://example.com/secret'', row_status = Str ''robots_blocked'',
               row_content_type = [], row_saved_file = []\<rparr>,
      Visited_add ''http://example.com/secret''] \<and>
   (\<exists>evs. new_events (demo_state ''http://example.com/img.png'' 1)
       (result_state (crawl_step demo_env demo_config ''http://example.com/'' demo_session
          (Some demo_robots) (demo_state ''http://example.com/img.png'' 1))) =
       evs @ [Visited_add ''http://example.com/img.png'', Sleep (Finite 2)] \<and>
       (\<forall>d. Sleep d \<notin> set evs))"
proof -
  let ?u = "''http://example.com/''" and ?i = "''http://example.com/img.png''"
    and ?x = "''http://example.com/secret''"
  have qx: "queue (demo_state ?x 1) = (?x, 1) # []" and qi: "queue (demo_state ?i 1) = (?i, 1) # []"
    by simp_all
  have nvx: "?x \<notin> visited (demo_state ?x 1)" and nvi: "?i \<notin> visited (demo_state ?i 1)"
    by simp_all
  have lv: "1 \<le> depth demo_config" by (simp add: demo_facts)
  have blocked: "respect_robots demo_config \<and>
      \<not> is_allowed (Some demo_robots) (user_agent demo_config) ?x"
    by (simp add: demo_facts)
  have free: "(respect_robots demo_config \<longrightarrow>
        is_allowed (Some demo_robots) (user_agent demo_config) ?i) \<and>
      \<not> isl (crawl_step demo_env demo_config ?u demo_session (Some demo_robots) (demo_state ?i 1))"
    by (simp add: demo_facts demo_step_image)
  note bx = sleep_follows_fetch_not_block
      [where E = demo_env and C = demo_config and st = ?u and sess = demo_session
         and rp = "Some demo_robots", OF qx nvx lv]
  note bi = sleep_follows_fetch_not_block
      [where E = demo_env and C = demo_config and st = ?u and sess = demo_session
         and rp = "Some demo_robots", OF qi nvi lv]
  from bx blocked have "new_events (demo_state ?x 1)
     (result_state (crawl_step demo_env demo_config ?u demo_session (Some demo_robots) (demo_state ?x 1))) =
     [Is_allowed ?x,
      Log_row \<lparr>row_url = ?x, row_status = Str ''robots_blocked'',
               row_content_type = [], row_saved_file = []\<rparr>,
      Visited_add ?x]"
    by blast
  moreover from bi free have "\<exists>evs. new_events (demo_state ?i 1)
       (result_state (crawl_step demo_env demo_config ?u demo_session (Some demo_robots) (demo_state ?i 1))) =
       evs @ [Visited_add ?i, Sleep (delay demo_config)] \<and> (\<forall>d. Sleep d \<notin> set evs)"
    by blast
  ultimately show ?thesis by (simp add: demo_facts)
qed

section \<open>When a URL is marked visited\<close>

text \<open>
  Claim C3, as stated: a dequeued target is added to the visited set at dequeue, before
  the permission oracle and before the fetch, so that link extraction can never
  re-enqueue the URL of the target in flight. The code adds the URL at the end of the
  iteration (\<^verbatim>\<open>visited.add(url)\<close> after the \<^verbatim>\<open>try\<close>, or after the robots row): in
  the run below the seed page links to itself, the seed is enqueued again at depth 1
  while in flight, and it is marked visited only after the request, the link extraction
  and the log row.
\<close>

theorem visited_at_dequeue_counterexample:
  "(''http://example.com/'', 1) \<in>
     set (queue (state_of (crawl 1 demo_env demo_config ''http://example.com''))) \<and>
   trace (state_of (crawl 1 demo_env demo_config ''http://example.com'')) =
     [Is_allowed ''http://example.com/'',
      Http_get ''http://example.com/'',
      Save_html ''tor_output/example.com_index.html'' demo_page,
      Extract_links ''http://example.com/'',
      Log_row \<lparr>row_url = ''http://example.com/'', row_status = Num 200,
          row_content_type = ''Text/HTML; charset=utf-8'',
          row_saved_file = ''tor_output/example.com_index.html''\<rparr>,
      Visited_add ''http://example.com/'', Sleep (Finite 2)]"
  unfolding demo_run_1 by (simp add: state_of_def demo_page_def)

text \<open>
  Claim C3, amended. For every target dequeued and not discarded, the URL is added to the
  visited set at the end of its processing: after the permission oracle has been
  consulted and the row logged and, unless the target is blocked, after the request;
  only the sleep follows. The URL is therefore not in the visited set while the links
  of its page are admitted, and an in-scope link from the page to itself is enqueued
  again at the next depth. (That duplicate is discarded when it is dequeued: by then the
  URL is in the visited set.)
\<close>

theorem visited_is_marked_after_processing:
  fixes E :: env and C :: config and st :: string and sess :: session
    and rp :: "robot_parser option"
  assumes q: "queue s = (url, level) # rest" and nv: "url \<notin> visited s" and lv: "level \<le> depth C"
    and r: "crawl_step E C st sess rp s = Inr s'"
  shows "visited s' = insert url (visited s) \<and>
         (\<exists>pre post. new_events s s' = pre @ Visited_add url # post \<and>
            Visited_add url \<notin> set pre \<and>
            (respect_robots C \<longrightarrow> Is_allowed url \<in> set pre) \<and>
            ((respect_robots C \<longrightarrow> is_allowed rp (user_agent C) url) \<longrightarrow> Http_get url \<in> set pre) \<and>
            (\<exists>row. Log_row row \<in> set pre \<and> row_url row = url) \<and>
            (post = [] \<or> post = [Sleep (delay C)])) \<and>
         ((respect_robots C \<longrightarrow> is_allowed rp (user_agent C) url) \<and>
          (\<exists>status header content html links.
             http_get E sess url = Response status header content html \<and>
             status = 200 \<and> contains ''text/html'' (lower (header_value header)) \<and>
             extract_links E url html = Inr links \<and> url \<in> set links) \<and>
          level < depth C \<and> in_scope (lib E) st url \<longrightarrow>
            (url, level + 1) \<in> set (queue s'))"
proof -
  have third: "(respect_robots C \<longrightarrow> is_allowed rp (user_agent C) url) \<and>
          (\<exists>status header content html links.
             http_get E sess url = Response status header content html \<and>
             status = 200 \<and> contains ''text/html'' (lower (header_value header)) \<and>
             extract_links E url html = Inr links \<and> url \<in> set links) \<and>
          level < depth C \<and> in_scope (lib E) st url \<longrightarrow>
            (url, level + 1) \<in> set (queue s')"
    using self_link_requeued [OF q nv _ _ _ _ _ _ nv _ r] by (auto simp: html_ok_def)
  have s': "s' = result_state (crawl_step E C st sess rp s)" and nl: "\<not> isl (crawl_step E C st sess rp s)"
    by (simp_all add: r)
  show ?thesis
  proof (cases "respect_robots C \<and> \<not> is_allowed rp (user_agent C) url")
    case True
    with crawl_step_blocked [OF q nv lv, of rp E st sess] r
    have e: "s' = \<lparr>visited = insert url (visited s), queue = rest, processed = processed s,
           trace = trace s @ [Is_allowed url,
             Log_row \<lparr>row_url = url, row_status = Str ''robots_blocked'', row_content_type = [],
                      row_saved_file = []\<rparr>,
             Visited_add url]\<rparr>"
      by simp
    have "\<exists>pre post. new_events s s' = pre @ Visited_add url # post \<and>
            Visited_add url \<notin> set pre \<and>
            (respect_robots C \<longrightarrow> Is_allowed url \<in> set pre) \<and>
            ((respect_robots C \<longrightarrow> is_allowed rp (user_agent C) url) \<longrightarrow> Http_get url \<in> set pre) \<and>
            (\<exists>row. Log_row row \<in> set pre \<and> row_url row = url) \<and>
            (post = [] \<or> post = [Sleep (delay C)])"
      apply (rule exI [of _ "[Is_allowed url,
             Log_row \<lparr>row_url = url, row_status = Str ''robots_blocked'', row_content_type = [],
                      row_saved_file = []\<rparr>]"], rule exI [of _ "[]"])
      using True by (simp add: e new_events_def)
    with third e show ?thesis by simp
  next
    case False
    then have ok: "respect_robots C \<longrightarrow> is_allowed rp (user_agent C) url" by blast
    have "visited s' = insert url (visited s) \<and>
         (\<exists>pre post. new_events s s' = pre @ Visited_add url # post \<and>
            Visited_add url \<notin> set pre \<and>
            (respect_robots C \<longrightarrow> Is_allowed url \<in> set pre) \<and>
            ((respect_robots C \<longrightarrow> is_allowed rp (user_agent C) url) \<longrightarrow> Http_get url \<in> set pre) \<and>
            (\<exists>row. Log_row row \<in> set pre \<and> row_url row = url) \<and>
            (post = [] \<or> post = [Sleep (delay C)]))"
      using q nv lv ok
    proof (cases rule: crawl_step_events [where E = E and st = st and sess = sess])
      case (other kind)
      with nl show ?thesis by simp
    next
      case (error kind post)
      show ?thesis
        unfolding s'
        apply (rule conjI, rule error(6))
        apply (rule exI [of _ "(if respect_robots C then [Is_allowed url] else []) @ [Http_get url] @
             [Log_row \<lparr>row_url = url, row_status = Str (''error:'' @ kind),
                      row_content_type = [], row_saved_file = []\<rparr>]"], rule exI [of _ post])
        using error(2,3) by auto
    next
      case (plain status header content html post)
      show ?thesis
        unfolding s'
        apply (rule conjI, rule plain(7))
        apply (rule exI [of _ "(if respect_robots C then [Is_allowed url] else []) @ [Http_get url] @
             [Log_row \<lparr>row_url = url, row_status = Num status,
                      row_content_type = header_value header, row_saved_file = []\<rparr>]"], rule exI [of _ post])
        using plain(3,4) by auto
    next
      case (unsaved status header content html e)
      with nl show ?thesis by simp
    next
      case (leaf status header content html path post)
      show ?thesis
        unfolding s'
        apply (rule conjI, rule leaf(9))
        apply (rule exI [of _ "(if respect_robots C then [Is_allowed url] else []) @ [Http_get url] @
             [Save_html path content,
              Log_row \<lparr>row_url = url, row_status = Num status,
                      row_content_type = header_value header, row_saved_file = path\<rparr>]"], rule exI [of _ post])
        using leaf(5,6) by auto
    next
      case (lost status header content html path new)
      with nl show ?thesis by simp
    next
      case (inner status header content html path new post)
      show ?thesis
        unfolding s'
        apply (rule conjI, rule inner(9))
        apply (rule exI [of _ "(if respect_robots C then [Is_allowed url] else []) @ [Http_get url] @
             [Save_html path content, Extract_links url,
              Log_row \<lparr>row_url = url, row_status = Num status,
                      row_content_type = header_value header, row_saved_file = path\<rparr>]"], rule exI [of _ post])
        using inner(5,6) by auto
    qed
    with third show ?thesis by blast
  qed
qed


theorem visited_is_marked_after_processing_witness:
  "visited (result_state (crawl_step demo_env demo_config ''http://example.com/'' demo_session
      (Some demo_robots) (demo_state ''http://example.com/'' 0))) = {''http://example.com/''} \<and>
   (''http://example.com/'', 1) \<in>
     set (queue (result_state (crawl_step demo_env demo_config ''http://example.com/'' demo_session
        (Some demo_robots) (demo_state ''http://example.com/'' 0))))"
proof -
  let ?u = "''http://example.com/''"
  let ?s' = "result_state (crawl_step demo_env demo_config ?u demo_session (Some demo_robots)
      (demo_state ?u 0))"
  have q: "queue (demo_state ?u 0) = (?u, 0) # []" and nv: "?u \<notin> visited (demo_state ?u 0)"
    by simp_all
  have lv: "0 \<le> depth demo_config" by (simp add: demo_facts)
  have r: "crawl_step demo_env demo_config ?u demo_session (Some demo_robots) (demo_state ?u 0) =
      Inr ?s'"
    by (simp add: demo_step_seed)
  have self: "(respect_robots demo_config \<longrightarrow>
        is_allowed (Some demo_robots) (user_agent demo_config) ?u) \<and>
      (\<exists>status header content html links.
         http_get demo_env demo_session ?u = Response status header content html \<and>
         status = 200 \<and> contains ''text/html'' (lower (header_value header)) \<and>
         extract_links demo_env ?u html = Inr links \<and> ?u \<in> set links) \<and>
      0 < depth demo_config \<and> in_scope (lib demo_env) ?u ?u"
    by (simp add: demo_facts demo_html_ok demo_links del: demo_lib_env)
  from visited_is_marked_after_processing
      [where E = demo_env and C = demo_config and st = ?u and sess = demo_session
         and rp = "Some demo_robots", OF q nv lv r] self
  show ?thesis by simp
qed

section \<open>Properties of the URL parser\<close>

lemma before_sep [simp]: "c \<notin> set a \<Longrightarrow> before c (a @ c # b) = a"
  by (induction a) (auto simp: before_def)

lemma before_none [simp]: "c \<notin> set u \<Longrightarrow> before c u = u"
  by (induction u) (auto simp: before_def)

lemma before_Nil [simp]: "before c [] = []"
  by (simp add: before_def)

lemma before_tail [simp]: "c \<notin> set a \<Longrightarrow> before c (a @ [c]) = a"
  using before_sep [of c a "[]"] by simp

lemma after_sep [simp]: "c \<notin> set a \<Longrightarrow> after c (a @ c # b) = b"
  by (induction a) (auto simp: after_def)

lemma after_none [simp]: "c \<notin> set u \<Longrightarrow> after c u = []"
  by (induction u) (auto simp: after_def)

lemma after_Nil [simp]: "after c [] = []"
  by (simp add: after_def)

lemma before_set: "set (before c u) \<subseteq> set u" and before_notin: "c \<notin> set (before c u)"
  by (auto simp: before_def dest: set_takeWhileD)

lemma after_set: "set (after c u) \<subseteq> set u"
  by (auto simp: after_def dest!: in_set_dropD set_dropWhileD)

lemma before_after_decomp: "c \<in> set u \<Longrightarrow> u = before c u @ c # after c u"
proof -
  assume "c \<in> set u"
  then have "dropWhile (\<lambda>x. x \<noteq> c) u \<noteq> []" by (simp add: dropWhile_eq_Nil_conv)
  then obtain y ys where d: "dropWhile (\<lambda>x. x \<noteq> c) u = y # ys" by (cases "dropWhile (\<lambda>x. x \<noteq> c) u") auto
  from hd_dropWhile [of "\<lambda>x. x \<noteq> c" u] d have "y = c" by simp
  with d have "u = takeWhile (\<lambda>x. x \<noteq> c) u @ c # ys"
    using takeWhile_dropWhile_id [of "\<lambda>x. x \<noteq> c" u] by simp
  with d show ?thesis by (simp add: before_def after_def)
qed

lemma strip_url_filter: "strip_url url = filter (\<lambda>c. \<not> unsafe c) (dropWhile c0_control_or_space url)"
proof -
  have "(\<lambda>c. c \<noteq> CHR 0x09 \<and> c \<noteq> CHR 0x0D \<and> c \<noteq> CHR 0x0A) = (\<lambda>c. \<not> unsafe c)"
    by (auto simp: unsafe_def unsafe_url_bytes_def)
  then show ?thesis by (simp add: strip_url_def unsafe_url_bytes_def)
qed

lemma strip_url_clean: "c \<in> set (strip_url u) \<Longrightarrow> \<not> unsafe c"
  by (simp add: strip_url_filter)

lemma strip_url_id:
  assumes "\<forall>c \<in> set y. \<not> unsafe c" and "y = [] \<or> \<not> c0_control_or_space (hd y)"
  shows "strip_url y = y"
proof -
  from assms(2) have "dropWhile c0_control_or_space y = y" by (cases y) auto
  with assms(1) show ?thesis by (simp add: strip_url_filter)
qed

lemma lower_uppercase: "map lower_char ascii_uppercase = ascii_lowercase"
  by code_simp

lemma lower_others:
  "map lower_char (ascii_lowercase @ ''0123456789'' @ ''+-.'') = ascii_lowercase @ ''0123456789'' @ ''+-.''"
  by code_simp

lemma scheme_chars_plain:
  "list_all (\<lambda>c. c \<noteq> CHR '':'' \<and> \<not> is_delim c \<and> \<not> unsafe c \<and> \<not> c0_control_or_space c) scheme_chars"
  by code_simp

lemma map_fixes: "map f xs = xs \<Longrightarrow> x \<in> set xs \<Longrightarrow> f x = x"
  by (induction xs) auto

lemma lower_char_upper: "c \<in> set ascii_uppercase \<Longrightarrow> lower_char c \<in> set ascii_lowercase"
proof -
  assume "c \<in> set ascii_uppercase"
  then have "lower_char c \<in> set (map lower_char ascii_uppercase)" by simp
  then show ?thesis by (simp only: lower_uppercase)
qed

lemma lower_char_other:
  "c \<in> set (ascii_lowercase @ ''0123456789'' @ ''+-.'') \<Longrightarrow> lower_char c = c"
  by (rule map_fixes [OF lower_others])

lemma scheme_chars_set:
  "set scheme_chars = set (ascii_lowercase @ ''0123456789'' @ ''+-.'') \<union> set ascii_uppercase"
  by (auto simp: scheme_chars_def)

lemma scheme_char:
  assumes "c \<in> set scheme_chars"
  shows "lower_char c \<in> set scheme_chars" "lower_char (lower_char c) = lower_char c"
    "c \<noteq> CHR '':''" "\<not> is_delim c" "\<not> unsafe c" "\<not> c0_control_or_space c"
    "isalpha_ascii c \<Longrightarrow> isalpha_ascii (lower_char c)"
proof -
  from assms have "c \<in> set (ascii_lowercase @ ''0123456789'' @ ''+-.'') \<union> set ascii_uppercase"
    by (simp only: scheme_chars_set)
  then consider (up) "c \<in> set ascii_uppercase"
    | (other) "c \<in> set (ascii_lowercase @ ''0123456789'' @ ''+-.'')"
    by blast
  then have l: "lower_char c \<in> set (ascii_lowercase @ ''0123456789'' @ ''+-.'')"
  proof cases
    case up
    from lower_char_upper [OF up] show ?thesis by (simp only: set_append Un_iff) blast
  next
    case other
    with lower_char_other [OF other] show ?thesis by (simp only:)
  qed
  then show "lower_char c \<in> set scheme_chars" by (simp only: scheme_chars_set) blast
  from l show "lower_char (lower_char c) = lower_char c" by (rule lower_char_other)
  from scheme_chars_plain assms show "c \<noteq> CHR '':''" "\<not> is_delim c" "\<not> unsafe c"
    "\<not> c0_control_or_space c"
    by (auto simp: list_all_iff)
  assume "isalpha_ascii c"
  then consider "c \<in> set ascii_uppercase" | "c \<in> set ascii_lowercase"
    by (auto simp: isalpha_ascii_def)
  then show "isalpha_ascii (lower_char c)"
  proof cases
    case 1
    from lower_char_upper [OF 1] show ?thesis by (simp add: isalpha_ascii_def)
  next
    case 2
    then have "c \<in> set (ascii_lowercase @ ''0123456789'' @ ''+-.'')"
      by (simp only: set_append Un_iff) blast
    then have "lower_char c = c" by (rule lower_char_other)
    with 2 show ?thesis by (simp add: isalpha_ascii_def)
  qed
qed

lemma isalpha_scheme_char: "isalpha_ascii c \<Longrightarrow> c \<in> set scheme_chars"
  by (auto simp: isalpha_ascii_def scheme_chars_def)

lemma scheme_wf_props:
  assumes "scheme_wf s"
  shows "s \<noteq> []" "isalpha_ascii (hd s)" "\<forall>c \<in> set s. c \<in> set scheme_chars" "lower s = s"
    "CHR '':'' \<notin> set s" "\<forall>c \<in> set s. \<not> is_delim c" "\<forall>c \<in> set s. \<not> unsafe c"
    "\<not> c0_control_or_space (hd s)" "CHR ''#'' \<notin> set s" "CHR ''?'' \<notin> set s" "CHR ''/'' \<notin> set s"
proof -
  from assms show a: "s \<noteq> []" "isalpha_ascii (hd s)" "\<forall>c \<in> set s. c \<in> set scheme_chars" "lower s = s"
    by (simp_all add: scheme_wf_def list_all_iff)
  from a(3) show "CHR '':'' \<notin> set s" using scheme_char(3) by blast
  from a(3) show d: "\<forall>c \<in> set s. \<not> is_delim c" using scheme_char(4) by blast
  from a(3) show "\<forall>c \<in> set s. \<not> unsafe c" using scheme_char(5) by blast
  from a(1,3) show "\<not> c0_control_or_space (hd s)" using scheme_char(6) hd_in_set by blast
  from d show "CHR ''#'' \<notin> set s" "CHR ''?'' \<notin> set s" "CHR ''/'' \<notin> set s"
    by (auto simp: is_delim_def)
qed

lemma split_scheme_cases:
  obtains (none) "\<not> has_scheme u" "split_scheme u = ([], u)"
  | (some) "has_scheme u" "split_scheme u = (lower (before CHR '':'' u), after CHR '':'' u)"
      "scheme_wf (lower (before CHR '':'' u))"
proof (cases "has_scheme u")
  case False
  then show ?thesis by (simp add: split_scheme_def none)
next
  case True
  let ?b = "before CHR '':'' u"
  from True have b: "?b \<noteq> []" "isalpha_ascii (hd u)" "\<forall>c \<in> set ?b. c \<in> set scheme_chars"
    by (simp_all add: has_scheme_def list_all_iff)
  from b(1) have "hd ?b = hd u" by (cases u) (auto simp: before_def split: if_splits)
  moreover from b(2) have "isalpha_ascii (lower_char (hd u))"
    using scheme_char(7) isalpha_scheme_char by blast
  ultimately have "scheme_wf (lower ?b)"
    using b scheme_char(1,2)
    by (auto simp: scheme_wf_def lower_def list_all_iff hd_map)
  with True show ?thesis by (simp add: split_scheme_def some)
qed

lemma split_scheme_assembled:
  assumes "scheme_wf s"
  shows "split_scheme (s @ CHR '':'' # r) = (s, r)"
proof -
  note p = scheme_wf_props [OF assms]
  from p(1) have "hd (s @ CHR '':'' # r) = hd s" by simp
  with p have "has_scheme (s @ CHR '':'' # r)"
    by (simp add: has_scheme_def list_all_iff)
  with p show ?thesis by (simp add: split_scheme_def)
qed

lemma split_scheme_slashes:
  assumes "take 2 u = ''//''"
  shows "split_scheme u = ([], u)"
proof -
  from assms have "hd u = CHR ''/''" by (cases u) auto
  then have "\<not> isalpha_ascii (hd u)" by (simp add: isalpha_ascii_def ascii_lowercase_def ascii_uppercase_def)
  then show ?thesis by (simp add: split_scheme_def has_scheme_def)
qed

lemma brackets_ok_Nil [simp]: "brackets_ok L []"
  by (simp add: brackets_ok_def)

lemma checknetloc_Nil [simp]: "checknetloc L []"
  by (simp add: checknetloc_def)

lemma takeWhile_netloc:
  assumes "\<forall>c \<in> set n. \<not> is_delim c" and "r = [] \<or> is_delim (hd r)"
  shows "takeWhile (\<lambda>c. \<not> is_delim c) (n @ r) = n" "dropWhile (\<lambda>c. \<not> is_delim c) (n @ r) = r"
proof -
  from assms(2) have "takeWhile (\<lambda>c. \<not> is_delim c) r = []" "dropWhile (\<lambda>c. \<not> is_delim c) r = r"
    by (cases r; auto)+
  with assms(1) show "takeWhile (\<lambda>c. \<not> is_delim c) (n @ r) = n"
    "dropWhile (\<lambda>c. \<not> is_delim c) (n @ r) = r"
    by (simp_all add: takeWhile_append2 dropWhile_append2)
qed

lemma splitnetloc_assembled:
  assumes "\<forall>c \<in> set n. \<not> is_delim c" and "r = [] \<or> is_delim (hd r)"
  shows "splitnetloc (''//'' @ n @ r) = (n, r)"
  using takeWhile_netloc [OF assms] by (simp add: splitnetloc_def)

lemma urlsplit_assembled:
  assumes s: "scheme_wf s"
    and n: "\<forall>c \<in> set n. \<not> is_delim c" "\<forall>c \<in> set n. \<not> unsafe c" "brackets_ok L n" "checknetloc L n"
    and r: "r = [] \<or> is_delim (hd r)" "\<forall>c \<in> set r. \<not> unsafe c"
  shows "urlsplit L (s @ ''://'' @ n @ r) =
     Inr (s, n, before CHR ''?'' (before CHR ''#'' r), after CHR ''?'' (before CHR ''#'' r),
          after CHR ''#'' r)"
proof -
  note p = scheme_wf_props [OF s]
  let ?y = "s @ ''://'' @ n @ r"
  have "\<not> unsafe CHR '':''" "\<not> unsafe CHR ''/''" by (simp_all add: unsafe_def unsafe_url_bytes_def)
  with p(7) n(2) r(2) have "\<forall>c \<in> set ?y. \<not> unsafe c" by auto
  moreover from p(1,8) have "\<not> c0_control_or_space (hd ?y)" by simp
  ultimately have st: "strip_url ?y = ?y" by (intro strip_url_id) auto
  have sc: "split_scheme ?y = (s, ''//'' @ n @ r)"
    using split_scheme_assembled [OF s, of "''//'' @ n @ r"] by simp
  have sl: "take 2 (''//'' @ n @ r) = ''//''" by simp
  from n(3,4) show ?thesis
    unfolding urlsplit_def Let_def st sc
    by (simp add: splitnetloc_assembled [OF n(1) r(1)] del: append.simps)
qed

lemma urlsplit_assembled_relative:
  assumes n: "\<forall>c \<in> set n. \<not> is_delim c" "\<forall>c \<in> set n. \<not> unsafe c" "brackets_ok L n" "checknetloc L n"
    and r: "r = [] \<or> is_delim (hd r)" "\<forall>c \<in> set r. \<not> unsafe c"
  shows "urlsplit L (''//'' @ n @ r) =
     Inr ([], n, before CHR ''?'' (before CHR ''#'' r), after CHR ''?'' (before CHR ''#'' r),
          after CHR ''#'' r)"
proof -
  let ?y = "''//'' @ n @ r"
  have "\<not> unsafe CHR ''/''" by (simp add: unsafe_def unsafe_url_bytes_def)
  with n(2) r(2) have "\<forall>c \<in> set ?y. \<not> unsafe c" by auto
  moreover have "\<not> c0_control_or_space (hd ?y)" by (simp add: c0_control_or_space_def)
  ultimately have st: "strip_url ?y = ?y" by (intro strip_url_id) auto
  have sc: "split_scheme ?y = ([], ?y)" by (rule split_scheme_slashes) simp
  from n(3,4) show ?thesis
    unfolding urlsplit_def Let_def st sc
    by (simp add: splitnetloc_assembled [OF n(1) r(1)] del: append.simps)
qed

lemma urlsplit_props:
  assumes "urlsplit L x = Inr (s, n, p, q, f)"
  shows "s = [] \<or> scheme_wf s"
    and "\<forall>c \<in> set n. \<not> is_delim c" and "\<forall>c \<in> set n. \<not> unsafe c"
    and "brackets_ok L n" and "checknetloc L n"
    and "\<forall>c \<in> set p. \<not> unsafe c" and "CHR ''#'' \<notin> set p" and "CHR ''?'' \<notin> set p"
    and "n \<noteq> [] \<longrightarrow> p = [] \<or> hd p = CHR ''/''"
    and "\<forall>c \<in> set q. \<not> unsafe c" and "CHR ''#'' \<notin> set q"
proof -
  define z where "z = strip_url x"
  define u3 where "u3 = snd (split_scheme z)"
  define u4 where "u4 = (if take 2 u3 = ''//'' then snd (splitnetloc u3) else u3)"
  from assms have eq:
    "s = fst (split_scheme z)" "n = (if take 2 u3 = ''//'' then fst (splitnetloc u3) else [])"
    "p = before CHR ''?'' (before CHR ''#'' u4)" "q = after CHR ''?'' (before CHR ''#'' u4)"
    and ok: "take 2 u3 = ''//'' \<longrightarrow> brackets_ok L n" "checknetloc L n"
    by (auto simp: urlsplit_def Let_def z_def u3_def u4_def split: if_splits)
  have zc: "\<forall>c \<in> set z. \<not> unsafe c" by (simp add: z_def strip_url_clean)
  have "set u3 \<subseteq> set z"
    by (cases z rule: split_scheme_cases) (use after_set in \<open>auto simp: u3_def\<close>)
  with zc have u3c: "\<forall>c \<in> set u3. \<not> unsafe c" by blast
  have "set u4 \<subseteq> set u3"
    by (auto simp: u4_def splitnetloc_def dest!: set_dropWhileD in_set_dropD)
  with u3c have u4c: "\<forall>c \<in> set u4. \<not> unsafe c" by blast
  show "s = [] \<or> scheme_wf s"
    by (cases z rule: split_scheme_cases) (simp_all add: eq(1))
  show nd: "\<forall>c \<in> set n. \<not> is_delim c"
    by (auto simp: eq(2) splitnetloc_def dest: set_takeWhileD)
  have "set n \<subseteq> set u3"
    by (auto simp: eq(2) splitnetloc_def dest!: set_takeWhileD in_set_dropD)
  with u3c show "\<forall>c \<in> set n. \<not> unsafe c" by blast
  from ok(1) show "brackets_ok L n" by (cases "take 2 u3 = ''//''") (simp_all add: eq(2))
  from ok(2) show "checknetloc L n" .
  have pu: "set p \<subseteq> set u4" "set q \<subseteq> set (before CHR ''#'' u4)"
    unfolding eq using before_set after_set by blast+
  with u4c show "\<forall>c \<in> set p. \<not> unsafe c" by blast
  from pu(2) u4c before_set show "\<forall>c \<in> set q. \<not> unsafe c" by blast
  from pu(2) before_notin show "CHR ''#'' \<notin> set q" by blast
  show "CHR ''?'' \<notin> set p" unfolding eq by (rule before_notin)
  have "set p \<subseteq> set (before CHR ''#'' u4)" unfolding eq by (rule before_set)
  with before_notin show "CHR ''#'' \<notin> set p" by blast
  show "n \<noteq> [] \<longrightarrow> p = [] \<or> hd p = CHR ''/''"
  proof
    assume "n \<noteq> []"
    then have sl: "take 2 u3 = ''//''" by (auto simp: eq(2) split: if_splits)
    then have u4: "u4 = dropWhile (\<lambda>c. \<not> is_delim c) (drop 2 u3)" by (simp add: u4_def splitnetloc_def)
    show "p = [] \<or> hd p = CHR ''/''"
    proof (cases u4)
      case Nil
      then show ?thesis by (simp add: eq(3))
    next
      case (Cons c cs)
      with u4 have ne: "dropWhile (\<lambda>c. \<not> is_delim c) (drop 2 u3) = c # cs" by simp
      then have "dropWhile (\<lambda>c. \<not> is_delim c) (drop 2 u3) \<noteq> []" by (simp only: list.distinct not_False_eq_True)
      from hd_dropWhile [OF this] have "is_delim c" by (simp only: ne list.sel not_not)
      with Cons show ?thesis
        by (auto simp: eq(3) is_delim_def before_def)
    qed
  qed
qed

lemma last_segment:
  assumes "CHR ''/'' \<in> set u"
  defines "seg \<equiv> rev (takeWhile (\<lambda>c. c \<noteq> CHR ''/'') (rev u))"
  defines "front \<equiv> rev (dropWhile (\<lambda>c. c \<noteq> CHR ''/'') (rev u))"
  shows "u = front @ seg" "front \<noteq> []" "last front = CHR ''/''" "CHR ''/'' \<notin> set seg"
proof -
  have "front @ seg =
      rev (takeWhile (\<lambda>c. c \<noteq> CHR ''/'') (rev u) @ dropWhile (\<lambda>c. c \<noteq> CHR ''/'') (rev u))"
    by (simp only: rev_append seg_def front_def)
  also have "\<dots> = rev (rev u)" by (simp only: takeWhile_dropWhile_id)
  finally show "u = front @ seg" by simp
  from assms(1) have ne: "dropWhile (\<lambda>c. c \<noteq> CHR ''/'') (rev u) \<noteq> []"
    by (simp add: dropWhile_eq_Nil_conv)
  then show "front \<noteq> []" by (simp add: front_def)
  from hd_dropWhile [OF ne] ne show "last front = CHR ''/''"
    by (simp add: front_def last_rev)
  show "CHR ''/'' \<notin> set seg" by (auto simp: seg_def dest: set_takeWhileD)
qed

lemma takeWhile_append_all: "\<forall>x \<in> set xs. P x \<Longrightarrow> takeWhile P (xs @ ys) = xs @ takeWhile P ys"
  by (induction xs) auto

lemma dropWhile_append_all: "\<forall>x \<in> set xs. P x \<Longrightarrow> dropWhile P (xs @ ys) = dropWhile P ys"
  by (induction xs) auto

lemma segment_of_append:
  assumes "front \<noteq> []" "last front = CHR ''/''" "CHR ''/'' \<notin> set b"
  shows "rev (takeWhile (\<lambda>c. c \<noteq> CHR ''/'') (rev (front @ b))) = b"
    and "rev (dropWhile (\<lambda>c. c \<noteq> CHR ''/'') (rev (front @ b))) = front"
proof -
  from assms(1,2) obtain fs where f: "rev front = CHR ''/'' # fs"
    by (cases "rev front") (auto simp: last_rev [symmetric] hd_rev)
  from assms(3) have b: "\<forall>c \<in> set (rev b). c \<noteq> CHR ''/''" by auto
  have "takeWhile (\<lambda>c. c \<noteq> CHR ''/'') (rev b @ rev front) = rev b"
    using b by (simp add: takeWhile_append_all f)
  then show "rev (takeWhile (\<lambda>c. c \<noteq> CHR ''/'') (rev (front @ b))) = b" by simp
  have "dropWhile (\<lambda>c. c \<noteq> CHR ''/'') (rev b @ rev front) = rev front"
    using b by (simp add: dropWhile_append_all f)
  then show "rev (dropWhile (\<lambda>c. c \<noteq> CHR ''/'') (rev (front @ b))) = front" by simp
qed

lemma splitparams_cases:
  obtains (flat) "CHR ''/'' \<notin> set u" "splitparams u = (before CHR '';'' u, after CHR '';'' u)"
  | (plain) "CHR ''/'' \<in> set u" "splitparams u = (u, [])"
      "CHR '';'' \<notin> set (rev (takeWhile (\<lambda>c. c \<noteq> CHR ''/'') (rev u)))"
  | (cut) front seg where "u = front @ seg" "front \<noteq> []" "last front = CHR ''/''"
      "CHR ''/'' \<notin> set seg" "CHR '';'' \<in> set seg"
      "splitparams u = (front @ before CHR '';'' seg, after CHR '';'' seg)"
proof (cases "CHR ''/'' \<in> set u")
  case False
  then show ?thesis by (simp add: splitparams_def flat)
next
  case True
  note ls = last_segment [OF True]
  show ?thesis
  proof (cases "CHR '';'' \<in> set (rev (takeWhile (\<lambda>c. c \<noteq> CHR ''/'') (rev u)))")
    case False
    with True have sp: "splitparams u = (u, [])" by (simp add: splitparams_def Let_def)
    from True sp False show ?thesis by (rule plain)
  next
    case semi: True
    with True have "splitparams u =
        (rev (dropWhile (\<lambda>c. c \<noteq> CHR ''/'') (rev u)) @
           before CHR '';'' (rev (takeWhile (\<lambda>c. c \<noteq> CHR ''/'') (rev u))),
         after CHR '';'' (rev (takeWhile (\<lambda>c. c \<noteq> CHR ''/'') (rev u))))"
      by (simp add: splitparams_def Let_def)
    with ls semi show ?thesis by (rule cut)
  qed
qed

lemma splitparams_fst:
  shows splitparams_fst_set: "set (fst (splitparams u)) \<subseteq> set u"
    and splitparams_fst_root: "u = [] \<or> hd u = CHR ''/'' \<Longrightarrow>
          fst (splitparams u) = [] \<or> hd (fst (splitparams u)) = CHR ''/''"
    and splitparams_fst_stable: "CHR '';'' \<in> set (fst (splitparams u)) \<Longrightarrow>
          splitparams (fst (splitparams u)) = (fst (splitparams u), [])"
proof -
  show "set (fst (splitparams u)) \<subseteq> set u"
  proof (cases u rule: splitparams_cases)
    case flat
    then show ?thesis using before_set by simp
  next
    case plain
    then show ?thesis by simp
  next
    case (cut front seg)
    then show ?thesis using before_set [of "CHR '';''" seg] by auto
  qed
  show "fst (splitparams u) = [] \<or> hd (fst (splitparams u)) = CHR ''/''"
    if "u = [] \<or> hd u = CHR ''/''"
  proof (cases u rule: splitparams_cases)
    case flat
    with that have "u = []" by (cases u) auto
    with flat show ?thesis by simp
  next
    case plain
    with that show ?thesis by simp
  next
    case (cut front seg)
    with that show ?thesis by (cases front) auto
  qed
  show "splitparams (fst (splitparams u)) = (fst (splitparams u), [])"
    if "CHR '';'' \<in> set (fst (splitparams u))"
  proof (cases u rule: splitparams_cases)
    case flat
    with that before_notin show ?thesis by simp
  next
    case plain
    then show ?thesis by simp
  next
    case (cut front seg)
    let ?b = "before CHR '';'' seg"
    from cut(4) before_set have nb: "CHR ''/'' \<notin> set ?b" by blast
    from cut(2,3) have "CHR ''/'' \<in> set front" using last_in_set by metis
    then have "CHR ''/'' \<in> set (front @ ?b)" by simp
    moreover have "CHR '';'' \<notin> set (rev (takeWhile (\<lambda>c. c \<noteq> CHR ''/'') (rev (front @ ?b))))"
      unfolding segment_of_append(1) [OF cut(2,3) nb] by (rule before_notin)
    ultimately have "splitparams (front @ ?b) = (front @ ?b, [])"
      by (simp add: splitparams_def Let_def)
    with cut(6) show ?thesis by simp
  qed
qed

lemma urlparse_of_split:
  assumes "urlsplit L x = Inr (s, n, p, q, f)"
  shows "urlparse L x =
     Inr \<lparr>pr_scheme = s, pr_netloc = n,
          pr_path = (if s \<in> set uses_params \<and> CHR '';'' \<in> set p then fst (splitparams p) else p),
          pr_params = (if s \<in> set uses_params \<and> CHR '';'' \<in> set p then snd (splitparams p) else []),
          pr_query = q, pr_fragment = f\<rparr>"
  using assms by (simp add: urlparse_def split_beta)

lemma urlparse_split_error: "urlsplit L x = Inl e \<Longrightarrow> urlparse L x = Inl e"
  by (simp add: urlparse_def)

lemma urlparse_props:
  assumes "urlparse L x = Inr pr"
  shows "pr_scheme pr = [] \<or> scheme_wf (pr_scheme pr)"
    and "\<forall>c \<in> set (pr_netloc pr). \<not> is_delim c" and "\<forall>c \<in> set (pr_netloc pr). \<not> unsafe c"
    and "brackets_ok L (pr_netloc pr)" and "checknetloc L (pr_netloc pr)"
    and "\<forall>c \<in> set (pr_path pr). \<not> unsafe c"
    and "CHR ''#'' \<notin> set (pr_path pr)" and "CHR ''?'' \<notin> set (pr_path pr)"
    and "pr_netloc pr \<noteq> [] \<longrightarrow> pr_path pr = [] \<or> hd (pr_path pr) = CHR ''/''"
    and "pr_scheme pr \<in> set uses_params \<and> CHR '';'' \<in> set (pr_path pr) \<longrightarrow>
           splitparams (pr_path pr) = (pr_path pr, [])"
proof -
  from assms obtain t where "urlsplit L x = Inr t"
    by (cases "urlsplit L x") (auto simp: urlparse_split_error)
  then obtain s n p q f where sp: "urlsplit L x = Inr (s, n, p, q, f)"
    by (cases t) auto
  from urlparse_of_split [OF sp] assms have
    pr: "pr_scheme pr = s" "pr_netloc pr = n"
        "pr_path pr = (if s \<in> set uses_params \<and> CHR '';'' \<in> set p then fst (splitparams p) else p)"
    by auto
  note u = urlsplit_props [OF sp]
  have sub: "set (pr_path pr) \<subseteq> set p" using splitparams_fst_set by (auto simp: pr(3))
  from u(1) show "pr_scheme pr = [] \<or> scheme_wf (pr_scheme pr)" by (simp add: pr)
  from u(2) show "\<forall>c \<in> set (pr_netloc pr). \<not> is_delim c" by (simp add: pr)
  from u(3) show "\<forall>c \<in> set (pr_netloc pr). \<not> unsafe c" by (simp add: pr)
  from u(4) show "brackets_ok L (pr_netloc pr)" by (simp add: pr)
  from u(5) show "checknetloc L (pr_netloc pr)" by (simp add: pr)
  from u(6) sub show "\<forall>c \<in> set (pr_path pr). \<not> unsafe c" by blast
  from u(7) sub show "CHR ''#'' \<notin> set (pr_path pr)" by blast
  from u(8) sub show "CHR ''?'' \<notin> set (pr_path pr)" by blast
  show "pr_netloc pr \<noteq> [] \<longrightarrow> pr_path pr = [] \<or> hd (pr_path pr) = CHR ''/''"
    using u(9) splitparams_fst_root [of p] by (auto simp: pr)
  show "pr_scheme pr \<in> set uses_params \<and> CHR '';'' \<in> set (pr_path pr) \<longrightarrow>
           splitparams (pr_path pr) = (pr_path pr, [])"
    using splitparams_fst_stable [of p] by (auto simp: pr)
qed

lemma scheme_wf_http: "scheme_wf ''http''"
  by (simp add: scheme_wf_def isalpha_ascii_def ascii_lowercase_def scheme_chars_def lower_def
        lower_char_def)

lemma http_uses_params: "''http'' \<in> set uses_params" "[] \<in> set uses_params"
  by (simp_all add: uses_params_def)

lemma urldefrag_no_fragment: "CHR ''#'' \<notin> set x \<Longrightarrow> urldefrag L x = Inr (x, [])"
  by (simp add: urldefrag_def)

lemma normalize_url_form:
  assumes "normalize_url L x = Inr y"
  obtains u f pr where "urldefrag L x = Inr (u, f)" "urlparse L u = Inr pr"
    "y = (if pr_scheme pr \<noteq> [] then pr_scheme pr else ''http'') @ ''://'' @ pr_netloc pr @
         (if pr_path pr \<noteq> [] then pr_path pr else ''/'')"
  using assms by (auto simp: normalize_url_def Let_def split: sum.splits prod.splits)

lemma normalized_parts:
  assumes "urlparse L u = Inr pr"
  defines "s \<equiv> (if pr_scheme pr \<noteq> [] then pr_scheme pr else ''http'')"
  defines "p \<equiv> (if pr_path pr \<noteq> [] then pr_path pr else ''/'')"
  shows "scheme_wf s" "p \<noteq> []" "\<forall>c \<in> set p. \<not> unsafe c" "CHR ''#'' \<notin> set p" "CHR ''?'' \<notin> set p"
    "s \<in> set uses_params \<and> CHR '';'' \<in> set p \<longrightarrow> splitparams p = (p, [])"
    "pr_netloc pr \<noteq> [] \<or> pr_path pr = [] \<or> take 1 (pr_path pr) = ''/'' \<Longrightarrow> hd p = CHR ''/''"
proof -
  note a = urlparse_props [OF assms(1)]
  from a(1) show "scheme_wf s" by (auto simp: s_def scheme_wf_http)
  show "p \<noteq> []" by (simp add: p_def)
  from a(6) show "\<forall>c \<in> set p. \<not> unsafe c" by (auto simp: p_def unsafe_def unsafe_url_bytes_def)
  from a(7) show "CHR ''#'' \<notin> set p" by (auto simp: p_def)
  from a(8) show "CHR ''?'' \<notin> set p" by (auto simp: p_def)
  from a(10) show "s \<in> set uses_params \<and> CHR '';'' \<in> set p \<longrightarrow> splitparams p = (p, [])"
    by (auto simp: p_def s_def http_uses_params)
  assume "pr_netloc pr \<noteq> [] \<or> pr_path pr = [] \<or> take 1 (pr_path pr) = ''/''"
  with a(9) have "pr_path pr = [] \<or> hd (pr_path pr) = CHR ''/''"
    by (cases "pr_path pr") auto
  then show "hd p = CHR ''/''" by (auto simp: p_def)
qed

lemma normalized_reparse_scheme:
  assumes s: "scheme_wf s" and n: "\<forall>c \<in> set n. \<not> is_delim c" "\<forall>c \<in> set n. \<not> unsafe c"
    and p: "\<forall>c \<in> set p. \<not> unsafe c" "CHR ''#'' \<notin> set p"
    and r: "urlparse L (s @ ''://'' @ n @ p) = Inr pr"
  shows "pr_scheme pr = s" "pr_fragment pr = []"
proof -
  note w = scheme_wf_props [OF s]
  let ?y = "s @ ''://'' @ n @ p"
  have "\<not> unsafe CHR '':''" "\<not> unsafe CHR ''/''" by (simp_all add: unsafe_def unsafe_url_bytes_def)
  with w(7) n(2) p(1) have "\<forall>c \<in> set ?y. \<not> unsafe c" by auto
  moreover from w(1,8) have "\<not> c0_control_or_space (hd ?y)" by simp
  ultimately have st: "strip_url ?y = ?y" by (intro strip_url_id) auto
  have sc: "split_scheme ?y = (s, ''//'' @ n @ p)"
    using split_scheme_assembled [OF s, of "''//'' @ n @ p"] by simp
  from r obtain t where "urlsplit L ?y = Inr t"
    by (cases "urlsplit L ?y") (auto simp: urlparse_split_error)
  then obtain s' n' p' q' f' where sp: "urlsplit L ?y = Inr (s', n', p', q', f')"
    by (cases t) auto
  from n(1) have hn: "CHR ''#'' \<notin> set n" by (auto simp: is_delim_def)
  have "s' = s \<and> f' = after CHR ''#'' (dropWhile (\<lambda>c. \<not> is_delim c) (n @ p))"
    using sp unfolding urlsplit_def Let_def st sc
    by (auto simp: splitnetloc_def split: if_splits)
  moreover from hn p(2) have "CHR ''#'' \<notin> set (dropWhile (\<lambda>c. \<not> is_delim c) (n @ p))"
    by (auto dest!: set_dropWhileD)
  ultimately have "s' = s \<and> f' = []" by simp
  with urlparse_of_split [OF sp] r show "pr_scheme pr = s" "pr_fragment pr = []" by auto
qed

lemma before_decomp:
  obtains w where "u = before c u @ w" "w = [] \<or> hd w = c"
proof
  show "u = before c u @ dropWhile (\<lambda>x. x \<noteq> c) u" by (simp add: before_def)
  show "dropWhile (\<lambda>x. x \<noteq> c) u = [] \<or> hd (dropWhile (\<lambda>x. x \<noteq> c) u) = c"
    using hd_dropWhile [of "\<lambda>x. x \<noteq> c" u] by auto
qed

lemma before_prefix: "d \<notin> set r \<Longrightarrow> w = [] \<or> hd w = d \<Longrightarrow> before d (r @ w) = r"
  by (cases w) auto

lemma before_append: "c \<notin> set a \<Longrightarrow> before c (a @ b) = a @ before c b"
  by (induction a) (auto simp: before_def)

lemma before_Cons: "x \<noteq> c \<Longrightarrow> before c (x # b) = x # before c b"
  by (simp add: before_def)

lemma after_prefix: "d \<notin> set r \<Longrightarrow> after d (r @ d # w) = w"
  by simp

lemma before_before:
  assumes "c \<in> set (before d u)"
  shows "before c (before d u) = before c u" and "after c (before d u) = before d (after c u)"
proof -
  let ?b = "before d u"
  obtain w where w: "u = ?b @ w" "w = [] \<or> hd w = d" by (rule before_decomp)
  from before_after_decomp [OF assms] obtain a r where
    b: "?b = a @ c # r" "a = before c ?b" "r = after c ?b"
    by blast
  have ca: "c \<notin> set a" unfolding b(2) by (rule before_notin)
  from before_notin [of d u] b(1) have dr: "d \<notin> set r" by auto
  from w(1) b(1) have u: "u = a @ c # (r @ w)" by simp
  have "before c u = a" by (subst u) (simp add: ca)
  then show "before c ?b = before c u" by (simp add: b(2))
  have "after c u = r @ w" by (subst u) (simp add: ca)
  then have "before d (after c u) = r" by (simp add: before_prefix [OF dr w(2)])
  then show "after c ?b = before d (after c u)" by (simp add: b(3))
qed

lemma dropWhile_takeWhile_commute:
  "(\<And>x. P x \<Longrightarrow> Q x) \<Longrightarrow> dropWhile P (takeWhile Q xs) = takeWhile Q (dropWhile P xs)"
  by (induction xs) auto

lemma filter_takeWhile_commute:
  "(\<And>x. \<not> R x \<Longrightarrow> Q x) \<Longrightarrow> filter R (takeWhile Q xs) = takeWhile Q (filter R xs)"
  by (induction xs) auto

lemma takeWhile_takeWhile_absorb:
  "(\<And>x. P x \<Longrightarrow> Q x) \<Longrightarrow> takeWhile P (takeWhile Q xs) = takeWhile P xs"
  by (induction xs) auto

lemma special_chars:
  "\<not> unsafe CHR ''?''" "\<not> unsafe CHR ''#''" "\<not> c0_control_or_space CHR ''?''"
  "\<not> c0_control_or_space CHR ''#''" "CHR ''?'' \<notin> set scheme_chars" "CHR ''#'' \<notin> set scheme_chars"
  using scheme_char(4) [of "CHR ''?''"] scheme_char(4) [of "CHR ''#''"]
  by (auto simp: unsafe_def unsafe_url_bytes_def c0_control_or_space_def is_delim_def)

lemma strip_url_before:
  assumes "\<not> unsafe c" "\<not> c0_control_or_space c"
  shows "strip_url (before c x) = before c (strip_url x)"
proof -
  have "dropWhile c0_control_or_space (takeWhile (\<lambda>y. y \<noteq> c) x) =
        takeWhile (\<lambda>y. y \<noteq> c) (dropWhile c0_control_or_space x)"
    using assms(2) by (intro dropWhile_takeWhile_commute) auto
  moreover have "\<And>xs. filter (\<lambda>y. \<not> unsafe y) (takeWhile (\<lambda>y. y \<noteq> c) xs) =
        takeWhile (\<lambda>y. y \<noteq> c) (filter (\<lambda>y. \<not> unsafe y) xs)"
    using assms(1) by (intro filter_takeWhile_commute) auto
  ultimately show ?thesis by (simp add: strip_url_filter before_def)
qed

lemma split_scheme_before:
  assumes "c \<notin> set scheme_chars" "c \<noteq> CHR '':''"
  shows "split_scheme (before c z) = (fst (split_scheme z), before c (snd (split_scheme z)))"
proof (cases "CHR '':'' \<in> set (before c z)")
  case True
  note bb = before_before [OF True]
  from True before_set have cz: "CHR '':'' \<in> set z" by blast
  from True have "before c z \<noteq> []" by auto
  then have "hd (before c z) = hd z" by (cases z) (auto simp: before_def split: if_splits)
  with True cz bb(1) have "has_scheme (before c z) = has_scheme z"
    by (simp add: has_scheme_def)
  with bb show ?thesis by (simp add: split_scheme_def)
next
  case False
  then have n1: "\<not> has_scheme (before c z)" by (simp add: has_scheme_def)
  have n2: "\<not> has_scheme z"
  proof
    assume h: "has_scheme z"
    then have cz: "CHR '':'' \<in> set z" and sc: "\<forall>x \<in> set (before CHR '':'' z). x \<in> set scheme_chars"
      by (simp_all add: has_scheme_def list_all_iff)
    from sc assms(1) have nc: "c \<notin> set (before CHR '':'' z)" by blast
    define a b where "a = before CHR '':'' z" and "b = after CHR '':'' z"
    from before_after_decomp [OF cz] have z: "z = a @ CHR '':'' # b" by (simp add: a_def b_def)
    from nc have "c \<notin> set a" by (simp add: a_def)
    then have "before c z = a @ CHR '':'' # before c b"
      using assms(2) by (simp add: z before_append before_Cons)
    then have "CHR '':'' \<in> set (before c z)" by simp
    with False show False by contradiction
  qed
  from n1 n2 show ?thesis by (simp add: split_scheme_def)
qed

lemma take2_before:
  assumes "c \<noteq> CHR ''/''"
  shows "(take 2 (before c u) = ''//'') = (take 2 u = ''//'')"
proof (cases u)
  case Nil
  then show ?thesis by simp
next
  case (Cons a u')
  then show ?thesis using assms by (cases u') (auto simp: before_def)
qed

lemma splitnetloc_before:
  assumes "is_delim c" "c \<noteq> CHR ''/''" "take 2 u = ''//''"
  shows "splitnetloc (before c u) = (fst (splitnetloc u), before c (snd (splitnetloc u)))"
proof -
  from assms(3) obtain w where u: "u = ''//'' @ w" by (cases u; cases "tl u") auto
  from assms(2) have d: "drop 2 (before c u) = before c w" by (simp add: u before_def)
  have "takeWhile (\<lambda>x. \<not> is_delim x) (takeWhile (\<lambda>x. x \<noteq> c) w) = takeWhile (\<lambda>x. \<not> is_delim x) w"
    using assms(1) by (intro takeWhile_takeWhile_absorb) auto
  moreover have "dropWhile (\<lambda>x. \<not> is_delim x) (takeWhile (\<lambda>x. x \<noteq> c) w) =
      takeWhile (\<lambda>x. x \<noteq> c) (dropWhile (\<lambda>x. \<not> is_delim x) w)"
    using assms(1) by (intro dropWhile_takeWhile_commute) auto
  ultimately show ?thesis using assms(2) by (simp add: splitnetloc_def d u before_def)
qed

lemma urlsplit_drop_query:
  assumes "CHR ''#'' \<notin> set x"
  shows "urlsplit L (before CHR ''?'' x) =
     (case urlsplit L x of Inl e \<Rightarrow> Inl e | Inr (s, n, p, q, f) \<Rightarrow> Inr (s, n, p, [], []))"
proof -
  define z where "z = strip_url x"
  define u3 where "u3 = snd (split_scheme z)"
  define u4 where "u4 = (if take 2 u3 = ''//'' then snd (splitnetloc u3) else u3)"
  have st: "strip_url (before CHR ''?'' x) = before CHR ''?'' z"
    unfolding z_def by (rule strip_url_before) (simp_all add: special_chars)
  have sc: "split_scheme (before CHR ''?'' z) = (fst (split_scheme z), before CHR ''?'' u3)"
    unfolding u3_def by (rule split_scheme_before) (simp_all add: special_chars)
  have t2: "(take 2 (before CHR ''?'' u3) = ''//'') = (take 2 u3 = ''//'')"
    by (rule take2_before) simp
  have sn: "take 2 u3 = ''//'' \<Longrightarrow>
      splitnetloc (before CHR ''?'' u3) = (fst (splitnetloc u3), before CHR ''?'' (snd (splitnetloc u3)))"
    by (rule splitnetloc_before) (simp_all add: is_delim_def)
  have "set z \<subseteq> set x" by (auto simp: z_def strip_url_filter dest: set_dropWhileD)
  moreover have "set u3 \<subseteq> set z"
    by (cases z rule: split_scheme_cases) (use after_set in \<open>auto simp: u3_def\<close>)
  moreover have "set u4 \<subseteq> set u3"
    by (auto simp: u4_def splitnetloc_def dest!: set_dropWhileD in_set_dropD)
  ultimately have h4: "CHR ''#'' \<notin> set u4" using assms by blast
  then have h4': "CHR ''#'' \<notin> set (before CHR ''?'' u4)" using before_set by blast
  have q: "CHR ''?'' \<notin> set (before CHR ''?'' u4)" by (rule before_notin)
  have u4': "(if take 2 u3 = ''//'' then before CHR ''?'' (snd (splitnetloc u3)) else before CHR ''?'' u3) =
      before CHR ''?'' u4"
    by (simp add: u4_def)
  show ?thesis
    unfolding urlsplit_def Let_def st sc
    apply (simp only: fst_conv snd_conv t2 z_def [symmetric] u3_def [symmetric])
    apply (cases "take 2 u3 = ''//''")
    using h4 h4' q by (simp_all add: sn u4_def)
qed

lemma urlsplit_drop_fragment:
  "urlsplit L (before CHR ''#'' x) =
     (case urlsplit L x of Inl e \<Rightarrow> Inl e | Inr (s, n, p, q, f) \<Rightarrow> Inr (s, n, p, q, []))"
proof -
  define z where "z = strip_url x"
  define u3 where "u3 = snd (split_scheme z)"
  define u4 where "u4 = (if take 2 u3 = ''//'' then snd (splitnetloc u3) else u3)"
  have st: "strip_url (before CHR ''#'' x) = before CHR ''#'' z"
    unfolding z_def by (rule strip_url_before) (simp_all add: special_chars)
  have sc: "split_scheme (before CHR ''#'' z) = (fst (split_scheme z), before CHR ''#'' u3)"
    unfolding u3_def by (rule split_scheme_before) (simp_all add: special_chars)
  have t2: "(take 2 (before CHR ''#'' u3) = ''//'') = (take 2 u3 = ''//'')"
    by (rule take2_before) simp
  have sn: "take 2 u3 = ''//'' \<Longrightarrow>
      splitnetloc (before CHR ''#'' u3) = (fst (splitnetloc u3), before CHR ''#'' (snd (splitnetloc u3)))"
    by (rule splitnetloc_before) (simp_all add: is_delim_def)
  have h: "CHR ''#'' \<notin> set (before CHR ''#'' u4)" by (rule before_notin)
  show ?thesis
    unfolding urlsplit_def Let_def st sc
    apply (simp only: fst_conv snd_conv t2 z_def [symmetric] u3_def [symmetric])
    apply (cases "take 2 u3 = ''//''")
    using h by (simp_all add: sn u4_def)
qed

lemma urlparse_drop_query:
  assumes "CHR ''#'' \<notin> set x"
  shows "urlparse L (before CHR ''?'' x) =
     (case urlparse L x of Inl e \<Rightarrow> Inl e | Inr pr \<Rightarrow> Inr (pr\<lparr>pr_query := [], pr_fragment := []\<rparr>))"
proof (cases "urlsplit L x")
  case (Inl e)
  with urlsplit_drop_query [OF assms, of L] show ?thesis by (simp add: urlparse_split_error)
next
  case (Inr t)
  then obtain s n p q f where sp: "urlsplit L x = Inr (s, n, p, q, f)" by (cases t) auto
  with urlsplit_drop_query [OF assms, of L] have
    sp': "urlsplit L (before CHR ''?'' x) = Inr (s, n, p, [], [])" by simp
  show ?thesis by (simp add: urlparse_of_split [OF sp] urlparse_of_split [OF sp'])
qed

lemma urlparse_drop_fragment:
  "urlparse L (before CHR ''#'' x) =
     (case urlparse L x of Inl e \<Rightarrow> Inl e | Inr pr \<Rightarrow> Inr (pr\<lparr>pr_fragment := []\<rparr>))"
proof (cases "urlsplit L x")
  case (Inl e)
  with urlsplit_drop_fragment [of L x] show ?thesis by (simp add: urlparse_split_error)
next
  case (Inr t)
  then obtain s n p q f where sp: "urlsplit L x = Inr (s, n, p, q, f)" by (cases t) auto
  with urlsplit_drop_fragment [of L x] have
    sp': "urlsplit L (before CHR ''#'' x) = Inr (s, n, p, q, [])" by simp
  show ?thesis by (simp add: urlparse_of_split [OF sp] urlparse_of_split [OF sp'])
qed

lemma normalize_url_drop_query:
  assumes "CHR ''#'' \<notin> set x"
  shows "normalize_url L (before CHR ''?'' x) = normalize_url L x"
proof -
  from assms before_set have "CHR ''#'' \<notin> set (before CHR ''?'' x)" by blast
  then show ?thesis
    by (cases "urlparse L x")
       (simp_all add: normalize_url_def urldefrag_no_fragment assms urlparse_drop_query [OF assms])
qed

lemma splitparams_roundtrip:
  assumes "snd (splitparams u) \<noteq> []"
  shows "fst (splitparams u) @ CHR '';'' # snd (splitparams u) = u"
proof (cases u rule: splitparams_cases)
  case flat
  have "CHR '';'' \<in> set u"
  proof (rule ccontr)
    assume "CHR '';'' \<notin> set u"
    then have "after CHR '';'' u = []" by simp
    with flat assms show False by simp
  qed
  from before_after_decomp [OF this] flat show ?thesis by simp
next
  case plain
  with assms show ?thesis by simp
next
  case (cut front seg)
  from before_after_decomp [OF cut(5)] cut(1,6) show ?thesis by simp
qed

lemma splitparams_snd_set: "set (snd (splitparams u)) \<subseteq> set u"
proof (cases u rule: splitparams_cases)
  case flat
  then show ?thesis using after_set by simp
next
  case plain
  then show ?thesis by simp
next
  case (cut front seg)
  then show ?thesis using after_set [of "CHR '';''" seg] by auto
qed

lemma unparse_reparse:
  assumes pr: "urlparse L u = Inr pr" and n: "pr_netloc pr \<noteq> []"
  shows "\<exists>pr'. urlparse L (urlunparse (pr_scheme pr, pr_netloc pr, pr_path pr, pr_params pr,
                                       pr_query pr, [])) = Inr pr' \<and>
           pr_scheme pr' = pr_scheme pr \<and> pr_netloc pr' = pr_netloc pr \<and> pr_path pr' = pr_path pr"
proof -
  from pr obtain t where "urlsplit L u = Inr t"
    by (cases "urlsplit L u") (auto simp: urlparse_split_error)
  then obtain s nl p6 q f where sp: "urlsplit L u = Inr (s, nl, p6, q, f)" by (cases t) auto
  define split where "split = (s \<in> set uses_params \<and> CHR '';'' \<in> set p6)"
  define p where "p = (if split then fst (splitparams p6) else p6)"
  define a where "a = (if split then snd (splitparams p6) else [])"
  from urlparse_of_split [OF sp] pr have
    f: "pr_scheme pr = s" "pr_netloc pr = nl" "pr_path pr = p" "pr_params pr = a" "pr_query pr = q"
    by (auto simp: p_def a_def split_def)
  note w = urlsplit_props [OF sp]
  from n f(2) have nl: "nl \<noteq> []" by simp
  with w(9) have root6: "p6 = [] \<or> hd p6 = CHR ''/''" by simp
  define r0 where "r0 = (if a \<noteq> [] then p @ '';'' @ a else p)"
  have r0: "(a = [] \<and> r0 = p) \<or> (a \<noteq> [] \<and> split \<and> r0 = p6)"
  proof (cases "a = []")
    case True
    then show ?thesis by (simp add: r0_def)
  next
    case False
    then have sl: split by (auto simp: a_def split: if_splits)
    with False have "snd (splitparams p6) \<noteq> []" by (simp add: a_def)
    from splitparams_roundtrip [OF this] sl have "p @ '';'' @ a = p6" by (simp add: p_def a_def)
    with False sl show ?thesis by (simp add: r0_def)
  qed
  have proot: "p = [] \<or> hd p = CHR ''/''"
    using root6 splitparams_fst_root [of p6] by (auto simp: p_def)
  with r0 root6 have r0root: "r0 = [] \<or> hd r0 = CHR ''/''" by auto
  have "set p \<subseteq> set p6" using splitparams_fst_set [of p6] by (simp add: p_def)
  with r0 have r0sub: "set r0 \<subseteq> set p6" by auto
  from r0sub w(8) have r0q: "CHR ''?'' \<notin> set r0" by blast
  from r0sub w(7) have r0h: "CHR ''#'' \<notin> set r0" by blast
  from r0sub w(6) have r0c: "\<forall>c \<in> set r0. \<not> unsafe c" by blast
  define r where "r = r0 @ (if q \<noteq> [] then ''?'' @ q else [])"
  have rroot: "r = [] \<or> is_delim (hd r)"
    using r0root by (cases r0) (auto simp: r_def is_delim_def)
  have rc: "\<forall>c \<in> set r. \<not> unsafe c" using r0c w(10) by (auto simp: r_def special_chars)
  have rh: "CHR ''#'' \<notin> set r" using r0h w(11) by (auto simp: r_def)
  have bq: "before CHR ''?'' r = r0" "after CHR ''?'' r = q"
    using r0q by (auto simp: r_def)
  define z where "z = urlunparse (s, nl, p, a, q, [])"
  have z: "z = (if s \<noteq> [] then s @ '':'' else []) @ ''//'' @ nl @ r"
    using nl r0root
    by (cases r0) (auto simp: z_def urlunparse_def urlunsplit_def Let_def r_def r0_def)
  have spz: "urlsplit L z = Inr (s, nl, r0, q, [])"
  proof (cases "s = []")
    case True
    with z have "z = ''//'' @ nl @ r" by simp
    with urlsplit_assembled_relative [OF w(2,3,4,5) rroot rc] True rh bq show ?thesis by simp
  next
    case False
    with w(1) have swf: "scheme_wf s" by simp
    from False z have "z = s @ ''://'' @ nl @ r" by simp
    with urlsplit_assembled [OF swf w(2,3,4,5) rroot rc] rh bq show ?thesis by simp
  qed
  have path: "(if s \<in> set uses_params \<and> CHR '';'' \<in> set r0 then fst (splitparams r0) else r0) = p"
  proof (cases "a = []")
    case True
    with r0 have e: "r0 = p" by simp
    from urlparse_props(10) [OF pr] f have "s \<in> set uses_params \<and> CHR '';'' \<in> set p \<longrightarrow>
        splitparams p = (p, [])" by simp
    then show ?thesis by (auto simp: e)
  next
    case False
    with r0 have e: "r0 = p6" split by simp_all
    then show ?thesis by (simp add: p_def split_def [symmetric])
  qed
  from urlparse_of_split [OF spz] path show ?thesis
    unfolding f z_def [symmetric] by simp
qed

lemma normalize_url_drop_fragment:
  assumes "\<forall>pr. urlparse L x = Inr pr \<longrightarrow> pr_netloc pr \<noteq> []"
  shows "normalize_url L (before CHR ''#'' x) = normalize_url L x"
proof (cases "CHR ''#'' \<in> set x")
  case False
  then show ?thesis by simp
next
  case True
  have nb: "CHR ''#'' \<notin> set (before CHR ''#'' x)" by (rule before_notin)
  show ?thesis
  proof (cases "urlparse L x")
    case (Inl e)
    with True show ?thesis
      by (simp add: normalize_url_def urldefrag_no_fragment [OF nb] urlparse_drop_fragment
            urldefrag_def)
  next
    case (Inr pr)
    with assms have n: "pr_netloc pr \<noteq> []" by blast
    from unparse_reparse [OF Inr n] obtain pr' where
      z: "urlparse L (urlunparse (pr_scheme pr, pr_netloc pr, pr_path pr, pr_params pr,
                                   pr_query pr, [])) = Inr pr'"
         "pr_scheme pr' = pr_scheme pr" "pr_netloc pr' = pr_netloc pr" "pr_path pr' = pr_path pr"
      by blast
    from True Inr z show ?thesis
      by (simp add: normalize_url_def urldefrag_no_fragment [OF nb] urlparse_drop_fragment
            urldefrag_def)
  qed
qed

section \<open>Normalization\<close>

lemma demo_normalize:
  "normalize_url demo_lib ''example.com'' = Inr ''http://example.com''"
  "normalize_url demo_lib ''http://example.com'' = Inr ''http://example.com/''"
  "normalize_url demo_lib ''http://example.com/'' = Inr ''http://example.com/''"
  "normalize_url demo_lib ''http:a#f'' = Inr ''http:///a''"
  "normalize_url demo_lib ''http:a'' = Inr ''http://a''"
  "normalize_url demo_lib ''http://example.com/img.png?v=1'' = Inr ''http://example.com/img.png''"
  "normalize_url demo_lib ''http://example.com/img.png'' = Inr ''http://example.com/img.png''"
  "normalize_url demo_lib ''http://example.com/#top'' = Inr ''http://example.com/''"
  by code_simp+

lemma demo_parse:
  "urlparse demo_lib ''http://example.com'' =
     Inr \<lparr>pr_scheme = ''http'', pr_netloc = ''example.com'', pr_path = [], pr_params = [],
          pr_query = [], pr_fragment = []\<rparr>"
  "urlparse demo_lib ''http://example.com/'' =
     Inr \<lparr>pr_scheme = ''http'', pr_netloc = ''example.com'', pr_path = ''/'', pr_params = [],
          pr_query = [], pr_fragment = []\<rparr>"
  "urlparse demo_lib ''http://example.com/#top'' =
     Inr \<lparr>pr_scheme = ''http'', pr_netloc = ''example.com'', pr_path = ''/'', pr_params = [],
          pr_query = [], pr_fragment = ''top''\<rparr>"
  by code_simp+

lemma demo_rooted: "rooted demo_lib ''http://example.com''"
  by code_simp

text \<open>
  Claim C5, as stated: \<open>normalize (normalize x) = normalize x\<close> for every string \<open>x\<close>, and
  the normalized form has a non-empty path. For a URL without a scheme and without a
  slash, \<^verbatim>\<open>urlparse\<close> puts the whole string into the path: \<^verbatim>\<open>example.com\<close> becomes
  \<^verbatim>\<open>http://example.com\<close>, whose own path is empty, and normalizing that gives
  \<^verbatim>\<open>http://example.com/\<close>.
\<close>

theorem normalize_twice_counterexample:
  "normalize_url demo_lib ''example.com'' = Inr ''http://example.com'' \<and>
   normalize_url demo_lib ''http://example.com'' = Inr ''http://example.com/'' \<and>
   ''http://example.com/'' \<noteq> ''http://example.com'' \<and>
   urlparse demo_lib ''http://example.com'' =
     Inr \<lparr>pr_scheme = ''http'', pr_netloc = ''example.com'', pr_path = [], pr_params = [],
          pr_query = [], pr_fragment = []\<rparr>"
  by (simp add: demo_normalize demo_parse)

text \<open>
  Claim C5, amended. Whenever \<open>normalize x\<close> returns (it raises ValueError on some
  strings), the result contains no \<^verbatim>\<open>#\<close>, starts with a non-empty scheme followed by
  \<^verbatim>\<open>://\<close>, and parses (when it parses) with that scheme and without a fragment. If \<open>x\<close>
  has a host, or a path that is empty or starts with a slash, then normalization is
  idempotent at \<open>x\<close>, \<open>normalize (normalize x) = normalize x\<close>, and the normalized form has
  a non-empty path.
\<close>

theorem normalize_url_canonical:
  assumes "normalize_url L x = Inr y"
  shows "CHR ''#'' \<notin> set y \<and>
         (\<exists>s r. y = s @ ''://'' @ r \<and> s \<noteq> [] \<and> CHR '':'' \<notin> set s) \<and>
         (\<forall>pr. urlparse L y = Inr pr \<longrightarrow> pr_scheme pr \<noteq> [] \<and> pr_fragment pr = []) \<and>
         (rooted L x \<longrightarrow>
            normalize_url L y = Inr y \<and>
            (\<exists>pr. urlparse L y = Inr pr \<and> pr_path pr \<noteq> []))"
proof -
  from assms obtain u f pr where
    d: "urldefrag L x = Inr (u, f)" and pr: "urlparse L u = Inr pr" and
    y: "y = (if pr_scheme pr \<noteq> [] then pr_scheme pr else ''http'') @ ''://'' @ pr_netloc pr @
         (if pr_path pr \<noteq> [] then pr_path pr else ''/'')"
    by (rule normalize_url_form)
  define s where "s = (if pr_scheme pr \<noteq> [] then pr_scheme pr else ''http'')"
  define n where "n = pr_netloc pr"
  define p where "p = (if pr_path pr \<noteq> [] then pr_path pr else ''/'')"
  have y': "y = s @ ''://'' @ n @ p" by (simp add: y s_def n_def p_def)
  note a = urlparse_props [OF pr, folded n_def]
  note b = normalized_parts [OF pr, folded s_def p_def]
  note w = scheme_wf_props [OF b(1)]
  from a(2) have hn: "CHR ''#'' \<notin> set n" by (auto simp: is_delim_def)
  from w(9) hn b(4) have nofrag: "CHR ''#'' \<notin> set y" by (simp add: y')
  have form: "\<exists>s r. y = s @ ''://'' @ r \<and> s \<noteq> [] \<and> CHR '':'' \<notin> set s"
    using y' w(1,5) by blast
  have reparse: "\<forall>pr'. urlparse L y = Inr pr' \<longrightarrow> pr_scheme pr' \<noteq> [] \<and> pr_fragment pr' = []"
    using normalized_reparse_scheme [OF b(1) a(2,3) b(3,4)] w(1) unfolding y' by blast
  have idem: "normalize_url L y = Inr y \<and> (\<exists>pr. urlparse L y = Inr pr \<and> pr_path pr \<noteq> [])"
    if "rooted L x"
  proof -
    from that d pr have "pr_netloc pr \<noteq> [] \<or> pr_path pr = [] \<or> take 1 (pr_path pr) = ''/''"
      by (simp add: rooted_def)
    from b(7) [OF this] b(2) have root: "p = [] \<or> is_delim (hd p)" by (simp add: is_delim_def)
    have "urlsplit L y = Inr (s, n, before CHR ''?'' (before CHR ''#'' p),
        after CHR ''?'' (before CHR ''#'' p), after CHR ''#'' p)"
      unfolding y' by (rule urlsplit_assembled [OF b(1) a(2,3,4,5) root b(3)])
    with b(4,5) have sp: "urlsplit L y = Inr (s, n, p, [], [])" by simp
    from urlparse_of_split [OF sp] b(6) have
      up: "urlparse L y = Inr \<lparr>pr_scheme = s, pr_netloc = n, pr_path = p, pr_params = [],
                               pr_query = [], pr_fragment = []\<rparr>"
      by (cases "s \<in> set uses_params \<and> CHR '';'' \<in> set p") simp_all
    have "normalize_url L y = Inr (s @ ''://'' @ n @ p)"
      using w(1) b(2) by (simp add: normalize_url_def urldefrag_no_fragment [OF nofrag] up)
    then have "normalize_url L y = Inr y" by (simp only: y')
    with up b(2) show ?thesis by simp
  qed
  from nofrag form reparse idem show ?thesis by blast
qed

theorem normalize_url_canonical_witness:
  "normalize_url demo_lib ''http://example.com'' = Inr ''http://example.com/'' \<and>
   rooted demo_lib ''http://example.com'' \<and>
   CHR ''#'' \<notin> set ''http://example.com/'' \<and>
   normalize_url demo_lib ''http://example.com/'' = Inr ''http://example.com/'' \<and>
   (\<exists>pr. urlparse demo_lib ''http://example.com/'' = Inr pr \<and> pr_path pr \<noteq> [])"
proof -
  have n: "normalize_url demo_lib ''http://example.com'' = Inr ''http://example.com/''"
    by (rule demo_normalize)
  from normalize_url_canonical [OF n] demo_rooted n show ?thesis by blast
qed

text \<open>
  Claim C10, as stated: two URLs that differ only in their query strings or fragments
  normalize identically. For queries this holds. For fragments it fails on a URL
  without a host: \<^verbatim>\<open>urldefrag\<close> re-assembles a URL that has a fragment with
  \<^verbatim>\<open>urlunparse\<close>, which writes \<^verbatim>\<open>http:a\<close> as \<^verbatim>\<open>http:///a\<close>.
\<close>

theorem fragment_changes_normal_form_counterexample:
  "before CHR ''#'' ''http:a#f'' = ''http:a'' \<and>
   normalize_url demo_lib ''http:a#f'' = Inr ''http:///a'' \<and>
   normalize_url demo_lib ''http:a'' = Inr ''http://a'' \<and>
   ''http:///a'' \<noteq> ''http://a''"
  by (simp add: demo_normalize before_def)

text \<open>
  Claim C10, amended. URL normalization discards the query: the normalized form is
  assembled from the scheme, the netloc and the path of the parsed URL only, so a URL
  without a fragment normalizes like the same URL cut at its first \<^verbatim>\<open>?\<close>, and two such
  URLs that differ only in their query strings normalize identically. A URL with a host
  normalizes like the same URL cut at its first \<^verbatim>\<open>#\<close>, so two URLs with a host that
  differ only in their fragments normalize identically. (Identical normal forms are one
  entry of the visited set: claim C6.)
\<close>

theorem normalize_url_ignores_query:
  "(CHR ''#'' \<notin> set x \<longrightarrow> normalize_url L x = normalize_url L (before CHR ''?'' x)) \<and>
   ((\<forall>pr. urlparse L x = Inr pr \<longrightarrow> pr_netloc pr \<noteq> []) \<longrightarrow>
      normalize_url L x = normalize_url L (before CHR ''#'' x)) \<and>
   (\<forall>y. normalize_url L x = Inr y \<longrightarrow>
      (\<exists>u f pr. urldefrag L x = Inr (u, f) \<and> urlparse L u = Inr pr \<and>
         y = (if pr_scheme pr \<noteq> [] then pr_scheme pr else ''http'') @ ''://'' @ pr_netloc pr @
             (if pr_path pr \<noteq> [] then pr_path pr else ''/'')))"
proof (intro conjI impI allI)
  assume "CHR ''#'' \<notin> set x"
  then show "normalize_url L x = normalize_url L (before CHR ''?'' x)"
    by (simp add: normalize_url_drop_query)
next
  assume "\<forall>pr. urlparse L x = Inr pr \<longrightarrow> pr_netloc pr \<noteq> []"
  then show "normalize_url L x = normalize_url L (before CHR ''#'' x)"
    by (simp add: normalize_url_drop_fragment)
next
  fix y
  assume "normalize_url L x = Inr y"
  then show "\<exists>u f pr. urldefrag L x = Inr (u, f) \<and> urlparse L u = Inr pr \<and>
         y = (if pr_scheme pr \<noteq> [] then pr_scheme pr else ''http'') @ ''://'' @ pr_netloc pr @
             (if pr_path pr \<noteq> [] then pr_path pr else ''/'')"
    by (rule normalize_url_form) blast
qed

theorem normalize_url_ignores_query_witness:
  "CHR ''#'' \<notin> set ''http://example.com/img.png?v=1'' \<and>
   before CHR ''?'' ''http://example.com/img.png?v=1'' = ''http://example.com/img.png'' \<and>
   normalize_url demo_lib ''http://example.com/img.png?v=1'' =
     normalize_url demo_lib ''http://example.com/img.png'' \<and>
   before CHR ''#'' ''http://example.com/#top'' = ''http://example.com/'' \<and>
   normalize_url demo_lib ''http://example.com/#top'' =
     normalize_url demo_lib ''http://example.com/''"
proof -
  let ?q = "''http://example.com/img.png?v=1''" and ?f = "''http://example.com/#top''"
  have nofrag: "CHR ''#'' \<notin> set ?q" by simp
  have cutq: "before CHR ''?'' ?q = ''http://example.com/img.png''"
    and cutf: "before CHR ''#'' ?f = ''http://example.com/''"
    by (simp_all add: before_def)
  have host: "\<forall>pr. urlparse demo_lib ?f = Inr pr \<longrightarrow> pr_netloc pr \<noteq> []"
    by (simp add: demo_parse)
  from normalize_url_ignores_query [of ?q demo_lib] nofrag
  have "normalize_url demo_lib ?q = normalize_url demo_lib (before CHR ''?'' ?q)" by blast
  moreover from normalize_url_ignores_query [of ?f demo_lib] host
  have "normalize_url demo_lib ?f = normalize_url demo_lib (before CHR ''#'' ?f)" by blast
  ultimately show ?thesis using nofrag cutq cutf by (simp only:) simp
qed

end
